theory Spec2Isabelle
  imports Main
begin

section \<open>Strings and paths\<close>

text \<open>
  The program is \<^verbatim>\<open>google_photos_transfer_app.py\<close>. Python strings are modelled as
  \<^typ>\<open>string\<close>; \<^verbatim>\<open>str.lower\<close> is modelled on the ASCII letters. The path functions
  of \<^verbatim>\<open>os.path\<close> and \<^verbatim>\<open>pathlib\<close> are modelled in their POSIX flavour, where
  the only separator is the slash. The log file and the widgets are not part of the
  model, and the statements of the SQLite store are taken to succeed.
\<close>

definition lower_char :: "char \<Rightarrow> char" where
  "lower_char c =
     (case map_of (zip ''ABCDEFGHIJKLMNOPQRSTUVWXYZ'' ''abcdefghijklmnopqrstuvwxyz'') c of
        None \<Rightarrow> c
      | Some d \<Rightarrow> d)"

definition lower :: "string \<Rightarrow> string" where
  "lower s = map lower_char s"

text \<open>\<^verbatim>\<open>s.startswith(p)\<close>\<close>

definition startswith :: "string \<Rightarrow> string \<Rightarrow> bool" where
  "startswith s p = (take (length p) s = p)"

text \<open>\<^verbatim>\<open>sub in s\<close>: some suffix of \<open>s\<close> starts with \<open>sub\<close>.\<close>

fun contains :: "string \<Rightarrow> string \<Rightarrow> bool" where
  "contains sub [] = (sub = [])"
| "contains sub (c # cs) = (startswith (c # cs) sub \<or> contains sub cs)"

text \<open>\<^verbatim>\<open>s.split('/')\<close> and \<^verbatim>\<open>'/'.join(parts)\<close>\<close>

fun split_sep :: "string \<Rightarrow> string list" where
  "split_sep [] = [[]]"
| "split_sep (c # cs) =
     (if c = CHR ''/'' then [] # split_sep cs
      else (case split_sep cs of [] \<Rightarrow> [[c]] | x # xs \<Rightarrow> (c # x) # xs))"

fun join_sep :: "string list \<Rightarrow> string" where
  "join_sep [] = []"
| "join_sep [x] = x"
| "join_sep (x # y # ys) = x @ CHR ''/'' # join_sep (y # ys)"

text \<open>
  \<^verbatim>\<open>posixpath.splitroot\<close>: the root is empty for a relative path, two slashes when the
  path starts with exactly two slashes, one slash otherwise.
\<close>

definition splitroot :: "string \<Rightarrow> string \<times> string" where
  "splitroot p =
     (if take 1 p \<noteq> ''/'' then ([], p)
      else if take 1 (drop 1 p) \<noteq> ''/'' \<or> take 1 (drop 2 p) = ''/'' then (''/'', drop 1 p)
      else (take 2 p, drop 2 p))"

text \<open>
  \<^verbatim>\<open>Path(p).as_posix()\<close>: the path is parsed into its root and the components that are
  neither empty nor a single dot, and printed again; the empty path prints as a dot.
  Letter case is kept as it is.
\<close>

definition path_parts :: "string \<Rightarrow> string list" where
  "path_parts rel = filter (\<lambda>x. x \<noteq> [] \<and> x \<noteq> ''.'') (split_sep rel)"

definition as_posix :: "string \<Rightarrow> string" where
  "as_posix p =
     (case splitroot p of (root, rel) \<Rightarrow>
        (let s = root @ join_sep (path_parts rel) in if s = [] then ''.'' else s))"

text \<open>\<^verbatim>\<open>os.path.basename\<close>: what follows the last slash.\<close>

definition basename :: "string \<Rightarrow> string" where
  "basename p = rev (takeWhile (\<lambda>c. c \<noteq> CHR ''/'') (rev p))"

text \<open>
  \<^verbatim>\<open>os.path.splitext(p)[1]\<close>: the extension starts at the last dot of the base name,
  unless every character before that dot is a dot too.
\<close>

definition splitext_ext :: "string \<Rightarrow> string" where
  "splitext_ext p =
     (let b = basename p in
      if CHR ''.'' \<notin> set b then []
      else
        (let ext = rev (takeWhile (\<lambda>c. c \<noteq> CHR ''.'') (rev b));
             stem = take (length b - length ext - 1) b
         in if (\<exists>c \<in> set stem. c \<noteq> CHR ''.'') then CHR ''.'' # ext else []))"

text \<open>\<^verbatim>\<open>os.path.join(a, b)\<close>\<close>

definition path_join :: "string \<Rightarrow> string \<Rightarrow> string" where
  "path_join a b =
     (if startswith b ''/'' then b
      else if a = [] \<or> last a = CHR ''/'' then a @ b
      else a @ CHR ''/'' # b)"

section \<open>The state store\<close>

text \<open>
  \<^verbatim>\<open>TransferDB\<close> keeps two tables with the path as primary key. A folder row holds
  the nullable album id and the status, a file row the folder path and the status; the
  statuses are the free-form strings of the source.
\<close>

record transfer_db =
  folders :: "string \<rightharpoonup> (string option \<times> string)"
  files :: "string \<rightharpoonup> (string \<times> string)"

definition get_folder_resumption_data ::
  "transfer_db \<Rightarrow> string \<Rightarrow> (string option \<times> string) option" where
  "get_folder_resumption_data db folder_path = folders db (as_posix folder_path)"

text \<open>Insert with the default status, or on conflict update the album id only.\<close>

definition set_folder_album :: "transfer_db \<Rightarrow> string \<Rightarrow> string option \<Rightarrow> transfer_db" where
  "set_folder_album db folder_path album_id =
     (let k = as_posix folder_path in
      case folders db k of
        None \<Rightarrow> db\<lparr>folders := (folders db)(k \<mapsto> (album_id, ''pending''))\<rparr>
      | Some (a, st) \<Rightarrow> db\<lparr>folders := (folders db)(k \<mapsto> (album_id, st))\<rparr>)"

text \<open>An \<^verbatim>\<open>UPDATE\<close>: it changes the row of the path if there is one, and nothing otherwise.\<close>

definition set_folder_status :: "transfer_db \<Rightarrow> string \<Rightarrow> string \<Rightarrow> transfer_db" where
  "set_folder_status db folder_path status =
     (let k = as_posix folder_path in
      case folders db k of
        None \<Rightarrow> db
      | Some (a, st) \<Rightarrow> db\<lparr>folders := (folders db)(k \<mapsto> (a, status))\<rparr>)"

definition is_file_uploaded :: "transfer_db \<Rightarrow> string \<Rightarrow> bool" where
  "is_file_uploaded db file_path =
     (case files db (as_posix file_path) of
        None \<Rightarrow> False
      | Some (fp, st) \<Rightarrow> st = ''uploaded'')"

definition mark_file_uploaded :: "transfer_db \<Rightarrow> string \<Rightarrow> string \<Rightarrow> transfer_db" where
  "mark_file_uploaded db file_path folder_path =
     (let k = as_posix file_path in
      case files db k of
        None \<Rightarrow> db\<lparr>files := (files db)(k \<mapsto> (as_posix folder_path, ''uploaded''))\<rparr>
      | Some (fp, st) \<Rightarrow> db\<lparr>files := (files db)(k \<mapsto> (fp, ''uploaded''))\<rparr>)"

section \<open>The remote client\<close>

text \<open>
  The calls \<^verbatim>\<open>create_album\<close>, \<^verbatim>\<open>upload_bytes\<close> and
  \<^verbatim>\<open>batch_create_media_items\<close> reach the remote service. Each one is a step on an
  abstract state of the outside world: it returns the new state together with either the
  text of the exception it raised (\<open>Inl\<close>, the \<^verbatim>\<open>str(e)\<close> of the source) or its
  result (\<open>Inr\<close>). \<^verbatim>\<open>create_album\<close> returns \<^verbatim>\<open>response.get("id")\<close>, which may
  be \<^verbatim>\<open>None\<close>.
\<close>

record 'r service =
  create_album :: "'r \<Rightarrow> string \<Rightarrow> (string + string option) \<times> 'r"
  upload_bytes :: "'r \<Rightarrow> string \<Rightarrow> (string + string) \<times> 'r"
  batch_create_media_items ::
    "'r \<Rightarrow> string list \<Rightarrow> string option \<Rightarrow> (string + string list) \<times> 'r"

text \<open>Every remote call of a run is recorded, in order, with its arguments and outcome.\<close>

datatype event =
    CreateAlbum string "string + string option"
  | UploadFile string "string + string"
  | CommitBatch "string list" "string option" "string + string list"

fun failure :: "event \<Rightarrow> string option" where
  "failure (CreateAlbum t r) = (case r of Inl msg \<Rightarrow> Some msg | Inr a \<Rightarrow> None)"
| "failure (UploadFile f r) = (case r of Inl msg \<Rightarrow> Some msg | Inr a \<Rightarrow> None)"
| "failure (CommitBatch ts a r) = (case r of Inl msg \<Rightarrow> Some msg | Inr a \<Rightarrow> None)"

section \<open>Processing one folder\<close>

text \<open>\<^verbatim>\<open>"quota" in error_msg.lower() or "429" in error_msg\<close>\<close>

definition is_quota_error :: "string \<Rightarrow> bool" where
  "is_quota_error error_msg = (contains ''quota'' (lower error_msg) \<or> contains ''429'' error_msg)"

text \<open>The truth value of an album id: neither \<^verbatim>\<open>None\<close> nor the empty string.\<close>

fun truthy :: "string option \<Rightarrow> bool" where
  "truthy None = False"
| "truthy (Some a) = (a \<noteq> [])"

definition image_extensions :: "string set" where
  "image_extensions = {''.jpg'', ''.jpeg'', ''.png'', ''.gif'', ''.bmp'', ''.webp''}"

text \<open>
  The walk of the folder is an input: the list of the pairs (directory, names of its
  files) that \<^verbatim>\<open>os.walk\<close> yields. The files with an image extension are gathered in
  that order.
\<close>

definition gather_files :: "(string \<times> string list) list \<Rightarrow> string list" where
  "gather_files walked =
     concat (map (\<lambda>(root, fs).
        map (path_join root) (filter (\<lambda>f. lower (splitext_ext f) \<in> image_extensions) fs)) walked)"

definition BATCH_SIZE :: nat where
  "BATCH_SIZE = 10"

text \<open>\<^verbatim>\<open>[xs[i : i + n] for i in range(0, len(xs), n)]\<close>\<close>

definition batches :: "nat \<Rightarrow> 'a list \<Rightarrow> 'a list list" where
  "batches n xs = map (\<lambda>k. take n (drop (n * k) xs)) [0 ..< (length xs + n - 1) div n]"

text \<open>
  The inner loop over the files of one batch. It returns \<open>None\<close> where the source
  returns \<^verbatim>\<open>False\<close> from \<^verbatim>\<open>process_folder\<close>, and the tokens and paths collected
  otherwise.
\<close>

fun upload_batch ::
  "'r service \<Rightarrow> string list \<Rightarrow> string list \<Rightarrow> string list \<Rightarrow> 'r \<Rightarrow>
     (string list \<times> string list) option \<times> 'r \<times> event list" where
  "upload_batch R [] upload_tokens current_batch_paths s =
     (Some (upload_tokens, current_batch_paths), s, [])"
| "upload_batch R (file_path # rest) upload_tokens current_batch_paths s =
     (case upload_bytes R s file_path of
        (Inr token, s1) \<Rightarrow>
          (case upload_batch R rest (upload_tokens @ [token]) (current_batch_paths @ [file_path]) s1 of
             (res, s2, evs) \<Rightarrow> (res, s2, UploadFile file_path (Inr token) # evs))
      | (Inl error_msg, s1) \<Rightarrow>
          if is_quota_error error_msg then (None, s1, [UploadFile file_path (Inl error_msg)])
          else
            (case upload_batch R rest upload_tokens current_batch_paths s1 of
               (res, s2, evs) \<Rightarrow> (res, s2, UploadFile file_path (Inl error_msg) # evs)))"

text \<open>Marking the paths of a committed batch, one after the other.\<close>

fun mark_all :: "transfer_db \<Rightarrow> string list \<Rightarrow> string \<Rightarrow> transfer_db" where
  "mark_all db [] folder_path = db"
| "mark_all db (p # ps) folder_path = mark_all (mark_file_uploaded db p folder_path) ps folder_path"

text \<open>
  The loop over the batches. The result is \<open>False\<close> where the source returns
  \<^verbatim>\<open>False\<close>, and \<open>True\<close> when the loop runs to its end.
\<close>

fun upload_batches ::
  "'r service \<Rightarrow> string \<Rightarrow> string option \<Rightarrow> string list list \<Rightarrow> transfer_db \<Rightarrow> 'r \<Rightarrow>
     bool \<times> transfer_db \<times> 'r \<times> event list" where
  "upload_batches R folder_path album_id [] db s = (True, db, s, [])"
| "upload_batches R folder_path album_id (batch # rest) db s =
     (case upload_batch R batch [] [] s of
        (None, s1, evs) \<Rightarrow> (False, db, s1, evs)
      | (Some (upload_tokens, current_batch_paths), s1, evs) \<Rightarrow>
          if upload_tokens = [] then
            (case upload_batches R folder_path album_id rest db s1 of
               (ok, db2, s2, evs2) \<Rightarrow> (ok, db2, s2, evs @ evs2))
          else
            (case batch_create_media_items R s1 upload_tokens album_id of
               (Inr created, s2) \<Rightarrow>
                 (case upload_batches R folder_path album_id rest
                         (mark_all db current_batch_paths folder_path) s2 of
                    (ok, db3, s3, evs3) \<Rightarrow>
                      (ok, db3, s3, evs @ CommitBatch upload_tokens album_id (Inr created) # evs3))
             | (Inl error_msg, s2) \<Rightarrow>
                 if is_quota_error error_msg
                 then (False, db, s2, evs @ [CommitBatch upload_tokens album_id (Inl error_msg)])
                 else
                   (case upload_batches R folder_path album_id rest db s2 of
                      (ok, db3, s3, evs3) \<Rightarrow>
                        (ok, db3, s3, evs @ CommitBatch upload_tokens album_id (Inl error_msg) # evs3))))"

text \<open>
  The part of \<^verbatim>\<open>process_folder\<close> after the album decision: gather the image files,
  drop the ones already uploaded, upload the rest in batches, and set the status of the
  folder.
\<close>

definition transfer_files ::
  "'r service \<Rightarrow> (string \<Rightarrow> (string \<times> string list) list) \<Rightarrow> string \<Rightarrow> string option \<Rightarrow>
     transfer_db \<Rightarrow> 'r \<Rightarrow> bool \<times> transfer_db \<times> 'r \<times> event list" where
  "transfer_files R walk folder_path album_id db s =
     (let all_files = gather_files (walk folder_path) in
      if all_files = [] then (True, set_folder_status db folder_path ''processed'', s, [])
      else
        (let files_to_upload = filter (\<lambda>f. \<not> is_file_uploaded db f) all_files in
         if files_to_upload = [] then (True, set_folder_status db folder_path ''processed'', s, [])
         else
           (case upload_batches R folder_path album_id (batches BATCH_SIZE files_to_upload) db s of
              (ok, db1, s1, evs) \<Rightarrow>
                if ok then (True, set_folder_status db1 folder_path ''processed'', s1, evs)
                else (False, db1, s1, evs))))"

text \<open>
  \<^verbatim>\<open>TransferApp.process_folder\<close>. Both branches of the handler of a failed album
  creation return \<^verbatim>\<open>False\<close>.
\<close>

definition process_folder ::
  "'r service \<Rightarrow> (string \<Rightarrow> (string \<times> string list) list) \<Rightarrow> string \<Rightarrow>
     transfer_db \<Rightarrow> 'r \<Rightarrow> bool \<times> transfer_db \<times> 'r \<times> event list" where
  "process_folder R walk path db s =
     (let folder_path = as_posix path;
          folder_name = basename folder_path;
          resumption_data = get_folder_resumption_data db folder_path;
          existing_album_id = (case resumption_data of None \<Rightarrow> None | Some (a, st) \<Rightarrow> a)
      in
      if (case resumption_data of None \<Rightarrow> False | Some (a, st) \<Rightarrow> st = ''processed'')
      then (True, db, s, [])
      else
        (let is_album = \<not> startswith (lower folder_name) ''photos from'' in
         if is_album \<and> \<not> truthy existing_album_id then
           (case create_album R s folder_name of
              (Inl error_msg, s1) \<Rightarrow>
                if is_quota_error error_msg
                then (False, db, s1, [CreateAlbum folder_name (Inl error_msg)])
                else (False, db, s1, [CreateAlbum folder_name (Inl error_msg)])
            | (Inr album_id, s1) \<Rightarrow>
                (case transfer_files R walk folder_path album_id
                        (set_folder_album db folder_path album_id) s1 of
                   (ok, db2, s2, evs) \<Rightarrow> (ok, db2, s2, CreateAlbum folder_name (Inr album_id) # evs)))
         else transfer_files R walk folder_path existing_album_id db s))"

section \<open>The session driver\<close>

text \<open>
  What \<^verbatim>\<open>start_transfer\<close> shows to its caller: the run of one folder with its
  result and remote calls, the value given to the progress bar (the pair \<open>(i + 1, total)\<close>
  stands for the fraction), the warning of a paused transfer, and the message boxes.
\<close>

datatype report =
    Processed string bool "event list"
  | Progress nat nat
  | Paused string
  | NoFolders
  | AuthenticationFailed string
  | Done

text \<open>
  The loop of \<^verbatim>\<open>start_transfer\<close> runs over a copy of the queue, enumerated from
  zero, while \<^verbatim>\<open>selected_folders.pop(0)\<close> changes the queue itself; on an empty
  queue \<^verbatim>\<open>pop\<close> raises, which is the result \<open>None\<close>.
\<close>

fun transfer_loop ::
  "'r service \<Rightarrow> (string \<Rightarrow> (string \<times> string list) list) \<Rightarrow> nat \<Rightarrow> (nat \<times> string) list \<Rightarrow>
     string list \<Rightarrow> transfer_db \<Rightarrow> 'r \<Rightarrow> (string list \<times> transfer_db \<times> 'r \<times> report list) option" where
  "transfer_loop R walk total_count [] selected_folders db s = Some (selected_folders, db, s, [])"
| "transfer_loop R walk total_count ((i, folder) # rest) selected_folders db s =
     (case process_folder R walk folder db s of
        (success, db1, s1, evs) \<Rightarrow>
          if success then
            (case selected_folders of
               [] \<Rightarrow> None
             | head # queue \<Rightarrow>
                 (case transfer_loop R walk total_count rest queue db1 s1 of
                    None \<Rightarrow> None
                  | Some (q, db2, s2, reps) \<Rightarrow>
                      Some (q, db2, s2, Processed folder True evs # Progress (i + 1) total_count # reps)))
          else
            Some (selected_folders, db1, s1,
                  [Processed folder False evs, Progress (i + 1) total_count, Paused folder]))"

text \<open>
  \<^verbatim>\<open>TransferApp.start_transfer\<close>; the outcome of \<^verbatim>\<open>authenticate()\<close> is an input,
  either the text of its exception or the service.
\<close>

definition start_transfer ::
  "string + 'r service \<Rightarrow> (string \<Rightarrow> (string \<times> string list) list) \<Rightarrow> string list \<Rightarrow>
     transfer_db \<Rightarrow> 'r \<Rightarrow> (string list \<times> transfer_db \<times> 'r \<times> report list) option" where
  "start_transfer auth walk selected_folders db s =
     (if selected_folders = [] then Some (selected_folders, db, s, [NoFolders])
      else
        (case auth of
           Inl e \<Rightarrow> Some (selected_folders, db, s, [AuthenticationFailed e])
         | Inr R \<Rightarrow>
             (case transfer_loop R walk (length selected_folders) (enumerate 0 selected_folders)
                     selected_folders db s of
                None \<Rightarrow> None
              | Some (q, db1, s1, reps) \<Rightarrow> Some (q, db1, s1, reps @ [Done]))))"

text \<open>
  \<^verbatim>\<open>migrate_json_to_db\<close>, on the items of the legacy file: every folder recorded there
  as processed gets that status.
\<close>

fun migrate_json_to_db :: "transfer_db \<Rightarrow> (string \<times> string) list \<Rightarrow> transfer_db" where
  "migrate_json_to_db db [] = db"
| "migrate_json_to_db db ((folder_path, status) # rest) =
     migrate_json_to_db
       (if status = ''processed'' then set_folder_status db folder_path ''processed'' else db) rest"

section \<open>Notions used in the properties\<close>

text \<open>A remote call failed with an error that the program takes for a quota error.\<close>

definition quota_failed :: "event \<Rightarrow> bool" where
  "quota_failed ev = (case failure ev of None \<Rightarrow> False | Some msg \<Rightarrow> is_quota_error msg)"

text \<open>
  A file is committed in a trace when one of its uploads succeeded and a later commit
  that succeeded carried the token of that upload.
\<close>

definition committed :: "event list \<Rightarrow> string \<Rightarrow> bool" where
  "committed evs f \<longleftrightarrow>
     (\<exists>pre mid post tok toks a ids.
        evs = pre @ UploadFile f (Inr tok) # mid @ CommitBatch toks a (Inr ids) # post \<and>
        tok \<in> set toks)"

definition folder_processed :: "transfer_db \<Rightarrow> string \<Rightarrow> bool" where
  "folder_processed db p =
     (case get_folder_resumption_data db p of None \<Rightarrow> False | Some (a, st) \<Rightarrow> st = ''processed'')"

text \<open>The album decision of \<^verbatim>\<open>process_folder\<close>, and the album id it finds in the store.\<close>

definition is_album_folder :: "string \<Rightarrow> bool" where
  "is_album_folder path = (\<not> startswith (lower (basename (as_posix path))) ''photos from'')"

definition existing_album :: "transfer_db \<Rightarrow> string \<Rightarrow> string option" where
  "existing_album db path =
     (case get_folder_resumption_data db path of None \<Rightarrow> None | Some (a, st) \<Rightarrow> a)"

text \<open>
  What one run may do to the store and what its trace looks like: uploaded files stay
  uploaded, a file newly uploaded in the store is committed in the trace, a run that
  returns true has no quota failure, and a quota failure can only be the last call.
\<close>

definition run_inv :: "transfer_db \<Rightarrow> transfer_db \<Rightarrow> bool \<Rightarrow> event list \<Rightarrow> bool" where
  "run_inv db db' ok evs \<longleftrightarrow>
     (\<forall>p. is_file_uploaded db p \<longrightarrow> is_file_uploaded db' p) \<and>
     (\<forall>p. is_file_uploaded db' p \<longrightarrow>
        is_file_uploaded db p \<or> (\<exists>f. as_posix f = as_posix p \<and> committed evs f)) \<and>
     (ok \<longrightarrow> (\<forall>ev \<in> set evs. \<not> quota_failed ev)) \<and>
     (\<forall>ev \<in> set (butlast evs). \<not> quota_failed ev)"

definition good_part :: "string \<Rightarrow> bool" where
  "good_part x = (x \<noteq> [] \<and> x \<noteq> ''.'' \<and> CHR ''/'' \<notin> set x)"

text \<open>
  The session as the specification words it: the head of the queue is processed; when
  that returns true the folder leaves the queue and the session goes on, otherwise the
  session stops and the queue stays as it is. The result lists the folders that were run.
\<close>

fun run_session ::
  "'r service \<Rightarrow> (string \<Rightarrow> (string \<times> string list) list) \<Rightarrow> string list \<Rightarrow> transfer_db \<Rightarrow> 'r \<Rightarrow>
     string list \<times> transfer_db \<times> 'r \<times> (string \<times> bool \<times> event list) list" where
  "run_session R walk [] db s = ([], db, s, [])"
| "run_session R walk (folder # queue) db s =
     (case process_folder R walk folder db s of
        (ok, db1, s1, evs) \<Rightarrow>
          if ok then
            (case run_session R walk queue db1 s1 of
               (q, db2, s2, runs) \<Rightarrow> (q, db2, s2, (folder, True, evs) # runs))
          else (folder # queue, db1, s1, [(folder, False, evs)]))"

text \<open>The reports of a session: each run, then the progress, then the pause if it failed.\<close>

fun session_reports :: "nat \<Rightarrow> nat \<Rightarrow> (string \<times> bool \<times> event list) list \<Rightarrow> report list" where
  "session_reports i total_count [] = []"
| "session_reports i total_count ((folder, ok, evs) # runs) =
     Processed folder ok evs # Progress (i + 1) total_count #
       (if ok then session_reports (i + 1) total_count runs else [Paused folder])"

text \<open>
  The stores that the engine can reach from a store: by processing a folder, by a whole
  session, or by the legacy import, with any walk, any state of the outside world and
  any path.
\<close>

inductive engine_reach :: "'r service \<Rightarrow> transfer_db \<Rightarrow> transfer_db \<Rightarrow> bool" for R :: "'r service" where
  reach_start: "engine_reach R db db"
| reach_folder:
    "engine_reach R db db1 \<Longrightarrow> process_folder R walk path db1 s = (ok, db2, s2, evs) \<Longrightarrow>
     engine_reach R db db2"
| reach_session:
    "engine_reach R db db1 \<Longrightarrow> start_transfer (Inr R) walk q db1 s = Some (q2, db2, s2, reps) \<Longrightarrow>
     engine_reach R db db2"
| reach_migrate:
    "engine_reach R db db1 \<Longrightarrow> engine_reach R db (migrate_json_to_db db1 items)"

section \<open>Concrete services, walks and stores\<close>

text \<open>
  A service whose calls fail exactly where the three arguments give an error text; the
  state counts the calls. A token is the path after \<open>tok:\<close>, an album id the title
  after \<open>album:\<close>.
\<close>

definition stub_service ::
  "(string \<Rightarrow> string option) \<Rightarrow> (string \<Rightarrow> string option) \<Rightarrow> (string list \<Rightarrow> string option) \<Rightarrow>
     nat service" where
  "stub_service create_err upload_err commit_err =
     \<lparr> create_album = (\<lambda>s title.
          (case create_err title of Some msg \<Rightarrow> Inl msg | None \<Rightarrow> Inr (Some (''album:'' @ title)),
           Suc s)),
       upload_bytes = (\<lambda>s file_path.
          (case upload_err file_path of Some msg \<Rightarrow> Inl msg | None \<Rightarrow> Inr (''tok:'' @ file_path),
           Suc s)),
       batch_create_media_items = (\<lambda>s tokens album_id.
          (case commit_err tokens of Some msg \<Rightarrow> Inl msg | None \<Rightarrow> Inr tokens, Suc s)) \<rparr>"

definition ok_service :: "nat service" where
  "ok_service = stub_service (\<lambda>t. None) (\<lambda>f. None) (\<lambda>ts. None)"

definition empty_db :: transfer_db where
  "empty_db = \<lparr> folders = Map.empty, files = Map.empty \<rparr>"

text \<open>A walk that finds the given files in the given folder, and nothing elsewhere.\<close>

definition one_folder :: "string \<Rightarrow> string list \<Rightarrow> string \<Rightarrow> (string \<times> string list) list" where
  "one_folder folder names p = (if p = folder then [(folder, names)] else [])"

section \<open>Auxiliary facts\<close>

subsection \<open>Strings and the normal form of a path\<close>

text \<open>The normal form of a path is a fixed point of the normalization.\<close>

lemma startswith_iff: "startswith s p \<longleftrightarrow> (\<exists>post. s = p @ post)"
proof
  assume "startswith s p"
  then have "s = p @ drop (length p) s"
    unfolding startswith_def by (metis append_take_drop_id)
  then show "\<exists>post. s = p @ post" ..
next
  assume "\<exists>post. s = p @ post"
  then show "startswith s p" by (auto simp: startswith_def)
qed

lemma contains_iff: "contains sub s \<longleftrightarrow> (\<exists>pre post. s = pre @ sub @ post)"
proof (induction s)
  case Nil
  show ?case by auto
next
  case (Cons c cs)
  show ?case
  proof
    assume "contains sub (c # cs)"
    then consider "startswith (c # cs) sub" | "contains sub cs" by auto
    then show "\<exists>pre post. c # cs = pre @ sub @ post"
    proof cases
      case 1
      then obtain post where "c # cs = sub @ post" by (auto simp: startswith_iff)
      then have "c # cs = [] @ sub @ post" by simp
      then show ?thesis by blast
    next
      case 2
      then obtain pre post where "cs = pre @ sub @ post" using Cons.IH by blast
      then have "c # cs = (c # pre) @ sub @ post" by simp
      then show ?thesis by blast
    qed
  next
    assume "\<exists>pre post. c # cs = pre @ sub @ post"
    then obtain pre post where e: "c # cs = pre @ sub @ post" by blast
    show "contains sub (c # cs)"
    proof (cases pre)
      case Nil
      with e have "startswith (c # cs) sub" by (auto simp: startswith_iff)
      then show ?thesis by simp
    next
      case (Cons a pre')
      with e have "cs = pre' @ sub @ post" by simp
      then have "contains sub cs" using Cons.IH by blast
      then show ?thesis by simp
    qed
  qed
qed


lemma split_sep_no_sep: "x \<in> set (split_sep s) \<Longrightarrow> CHR ''/'' \<notin> set x"
  by (induction s arbitrary: x) (auto split: list.splits if_splits)

lemma split_sep_plain: "CHR ''/'' \<notin> set x \<Longrightarrow> split_sep x = [x]"
  by (induction x) (auto split: list.splits)

lemma split_sep_append:
  "CHR ''/'' \<notin> set x \<Longrightarrow> split_sep (x @ CHR ''/'' # r) = x # split_sep r"
  by (induction x) (auto split: list.splits)

lemma split_join:
  "ps \<noteq> [] \<Longrightarrow> \<forall>x \<in> set ps. CHR ''/'' \<notin> set x \<Longrightarrow> split_sep (join_sep ps) = ps"
proof (induction ps rule: join_sep.induct)
  case 1
  then show ?case by simp
next
  case (2 x)
  then show ?case by (simp add: split_sep_plain)
next
  case (3 x y ys)
  then show ?case by (simp add: split_sep_append)
qed

lemma path_parts_good: "x \<in> set (path_parts r) \<Longrightarrow> good_part x"
  by (auto simp: path_parts_def good_part_def dest: split_sep_no_sep)

lemma path_parts_join:
  assumes "\<forall>x \<in> set ps. good_part x"
  shows "path_parts (join_sep ps) = ps"
proof (cases "ps = []")
  case True
  then show ?thesis by (simp add: path_parts_def)
next
  case False
  with assms have "split_sep (join_sep ps) = ps"
    by (intro split_join) (auto simp: good_part_def)
  moreover have "filter (\<lambda>x. x \<noteq> [] \<and> x \<noteq> ''.'') ps = ps"
    using assms by (auto simp: good_part_def filter_id_conv)
  ultimately show ?thesis by (simp add: path_parts_def)
qed

lemma splitroot_root: "fst (splitroot p) \<in> {[], ''/'', ''//''}"
proof (cases p)
  case Nil
  then show ?thesis by (simp add: splitroot_def)
next
  case (Cons a q)
  then show ?thesis by (cases q) (auto simp: splitroot_def)
qed

lemma join_sep_hd:
  "\<forall>x \<in> set ps. good_part x \<Longrightarrow> take 1 (join_sep ps) \<noteq> ''/''"
proof (induction ps rule: join_sep.induct)
  case 1
  then show ?case by simp
next
  case (2 x)
  then show ?case by (cases x) (auto simp: good_part_def)
next
  case (3 x y ys)
  then show ?case by (cases x) (auto simp: good_part_def)
qed

lemma splitroot_rebuild:
  assumes "root \<in> {[], ''/'', ''//''}" and "take 1 j \<noteq> ''/''"
  shows "splitroot (root @ j) = (root, j)"
  using assms by (cases j) (auto simp: splitroot_def)

lemma join_sep_dot: "\<forall>x \<in> set ps. good_part x \<Longrightarrow> join_sep ps \<noteq> ''.''"
proof (induction ps rule: join_sep.induct)
  case 1
  then show ?case by simp
next
  case (2 x)
  then show ?case by (auto simp: good_part_def)
next
  case (3 x y ys)
  then show ?case by (cases x) (auto simp: good_part_def)
qed

lemma as_posix_idem: "as_posix (as_posix p) = as_posix p"
proof -
  obtain root rel where sr: "splitroot p = (root, rel)" by (cases "splitroot p")
  define ps where "ps = path_parts rel"
  have good: "\<forall>x \<in> set ps. good_part x" by (simp add: ps_def path_parts_good)
  have root: "root \<in> {[], ''/'', ''//''}" using splitroot_root [of p] sr by simp
  show ?thesis
  proof (cases "root @ join_sep ps = []")
    case True
    then have "as_posix p = ''.''" by (simp add: as_posix_def sr ps_def)
    moreover have "as_posix ''.'' = ''.''"
      by (simp add: as_posix_def splitroot_def path_parts_def)
    ultimately show ?thesis by simp
  next
    case False
    then have ap: "as_posix p = root @ join_sep ps" by (simp add: as_posix_def sr ps_def)
    have "splitroot (root @ join_sep ps) = (root, join_sep ps)"
      using root join_sep_hd [OF good] by (rule splitroot_rebuild)
    then have "as_posix (root @ join_sep ps) = root @ join_sep ps"
      using False by (simp add: as_posix_def path_parts_join [OF good])
    with ap show ?thesis by simp
  qed
qed

subsection \<open>Committed files in a trace\<close>

lemma committed_append_left: "committed evs f \<Longrightarrow> committed (xs @ evs) f"
proof -
  assume "committed evs f"
  then obtain pre mid post tok toks a ids where
    "evs = pre @ UploadFile f (Inr tok) # mid @ CommitBatch toks a (Inr ids) # post" "tok \<in> set toks"
    unfolding committed_def by blast
  then have "xs @ evs = (xs @ pre) @ UploadFile f (Inr tok) # mid @ CommitBatch toks a (Inr ids) # post \<and> tok \<in> set toks"
    by simp
  then show ?thesis unfolding committed_def by blast
qed

lemma committed_Cons: "committed evs f \<Longrightarrow> committed (x # evs) f"
  using committed_append_left [of evs f "[x]"] by simp

lemma committed_upload_commit:
  assumes "UploadFile f (Inr tok) \<in> set evs" and "tok \<in> set toks"
  shows "committed (evs @ CommitBatch toks a (Inr ids) # post) f"
proof -
  from assms(1) obtain pre mid where "evs = pre @ UploadFile f (Inr tok) # mid"
    by (auto simp: in_set_conv_decomp)
  then have "evs @ CommitBatch toks a (Inr ids) # post =
      pre @ UploadFile f (Inr tok) # mid @ CommitBatch toks a (Inr ids) # post" by simp
  with assms(2) show ?thesis unfolding committed_def by blast
qed

subsection \<open>The store\<close>

lemma mark_file_folders [simp]: "folders (mark_file_uploaded db p fp) = folders db"
  by (simp add: mark_file_uploaded_def Let_def split: option.splits)

lemma mark_all_folders [simp]: "folders (mark_all db ps fp) = folders db"
  by (induction ps arbitrary: db) simp_all

lemma is_uploaded_mark:
  "is_file_uploaded (mark_file_uploaded db q fp) p \<longleftrightarrow> is_file_uploaded db p \<or> as_posix p = as_posix q"
  by (auto simp: is_file_uploaded_def mark_file_uploaded_def Let_def split: option.splits)

lemma is_uploaded_mark_all:
  "is_file_uploaded (mark_all db ps fp) p \<longleftrightarrow>
     is_file_uploaded db p \<or> as_posix p \<in> as_posix ` set ps"
  by (induction ps arbitrary: db) (auto simp: is_uploaded_mark)

lemma set_status_files [simp]: "files (set_folder_status db p st) = files db"
  by (simp add: set_folder_status_def Let_def split: option.splits)

lemma set_album_files [simp]: "files (set_folder_album db p a) = files db"
  by (simp add: set_folder_album_def Let_def split: option.splits)

lemma is_uploaded_set_status [simp]:
  "is_file_uploaded (set_folder_status db p st) q = is_file_uploaded db q"
  by (simp add: is_file_uploaded_def)

lemma is_uploaded_set_album [simp]:
  "is_file_uploaded (set_folder_album db p a) q = is_file_uploaded db q"
  by (simp add: is_file_uploaded_def)

lemma folder_processed_mark_all [simp]:
  "folder_processed (mark_all db ps fp) p = folder_processed db p"
  by (simp add: folder_processed_def get_folder_resumption_data_def)

lemma folder_processed_set_album:
  "folder_processed db p \<Longrightarrow> folder_processed (set_folder_album db q a) p"
  by (auto simp: folder_processed_def get_folder_resumption_data_def set_folder_album_def Let_def
      split: option.splits)

lemma folder_processed_set_status:
  "folder_processed db p \<Longrightarrow> folder_processed (set_folder_status db q ''processed'') p"
  by (auto simp: folder_processed_def get_folder_resumption_data_def set_folder_status_def Let_def
      split: option.splits)

lemma get_after_set_status:
  "get_folder_resumption_data (set_folder_status db q st) p =
     (if as_posix p = as_posix q
      then (case get_folder_resumption_data db p of None \<Rightarrow> None | Some (a, old) \<Rightarrow> Some (a, st))
      else get_folder_resumption_data db p)"
  by (auto simp: get_folder_resumption_data_def set_folder_status_def Let_def split: option.splits)

lemma get_after_set_album:
  "get_folder_resumption_data (set_folder_album db q a) p =
     (if as_posix p = as_posix q
      then (case get_folder_resumption_data db p of None \<Rightarrow> Some (a, ''pending'')
            | Some (old, st) \<Rightarrow> Some (a, st))
      else get_folder_resumption_data db p)"
  by (auto simp: get_folder_resumption_data_def set_folder_album_def Let_def split: option.splits)

subsection \<open>The trace of a batch\<close>

lemma upload_batch_some:
  "upload_batch R b toks paths s = (Some (toks', paths'), s', evs) \<Longrightarrow>
     \<exists>nt np. toks' = toks @ nt \<and> paths' = paths @ np \<and> length nt = length np \<and>
       (\<forall>i < length np. UploadFile (np ! i) (Inr (nt ! i)) \<in> set evs) \<and>
       (\<forall>ev \<in> set evs. \<not> quota_failed ev)"
proof (induction b arbitrary: toks paths s s' evs)
  case Nil
  then show ?case by simp
next
  case (Cons f rest)
  obtain r s1 where ub: "upload_bytes R s f = (r, s1)" by (cases "upload_bytes R s f")
  show ?case
  proof (cases r)
    case (Inl msg)
    with Cons.prems ub have nq: "\<not> is_quota_error msg" by (auto split: if_splits)
    obtain res s2 evs2 where rec: "upload_batch R rest toks paths s1 = (res, s2, evs2)"
      by (cases "upload_batch R rest toks paths s1")
    with Cons.prems ub Inl nq have e: "res = Some (toks', paths')" "s2 = s'"
      "evs = UploadFile f (Inl msg) # evs2" by auto
    from Cons.IH [OF rec [unfolded e(1)]] obtain nt np where
      "toks' = toks @ nt" "paths' = paths @ np" "length nt = length np"
      "\<forall>i < length np. UploadFile (np ! i) (Inr (nt ! i)) \<in> set evs2"
      "\<forall>ev \<in> set evs2. \<not> quota_failed ev" by blast
    then show ?thesis using e(3) nq by (auto simp: quota_failed_def)
  next
    case (Inr tok)
    obtain res s2 evs2 where rec:
      "upload_batch R rest (toks @ [tok]) (paths @ [f]) s1 = (res, s2, evs2)"
      by (cases "upload_batch R rest (toks @ [tok]) (paths @ [f]) s1")
    with Cons.prems ub Inr have e: "res = Some (toks', paths')" "s2 = s'"
      "evs = UploadFile f (Inr tok) # evs2" by auto
    from Cons.IH [OF rec [unfolded e(1)]] obtain nt np where h:
      "toks' = (toks @ [tok]) @ nt" "paths' = (paths @ [f]) @ np" "length nt = length np"
      "\<forall>i < length np. UploadFile (np ! i) (Inr (nt ! i)) \<in> set evs2"
      "\<forall>ev \<in> set evs2. \<not> quota_failed ev" by blast
    have "\<forall>i < length (f # np). UploadFile ((f # np) ! i) (Inr ((tok # nt) ! i)) \<in> set evs"
      using h(4) e(3) by (auto simp: nth_Cons split: nat.splits)
    moreover have "\<forall>ev \<in> set evs. \<not> quota_failed ev"
      using h(5) e(3) by (auto simp: quota_failed_def)
    moreover have "toks' = toks @ (tok # nt)" "paths' = paths @ (f # np)"
      "length (tok # nt) = length (f # np)" using h by simp_all
    ultimately show ?thesis by blast
  qed
qed

lemma upload_batch_none:
  "upload_batch R b toks paths s = (None, s', evs) \<Longrightarrow>
     evs \<noteq> [] \<and> quota_failed (last evs) \<and> (\<forall>ev \<in> set (butlast evs). \<not> quota_failed ev)"
proof (induction b arbitrary: toks paths s s' evs)
  case Nil
  then show ?case by simp
next
  case (Cons f rest)
  obtain r s1 where ub: "upload_bytes R s f = (r, s1)" by (cases "upload_bytes R s f")
  show ?case
  proof (cases r)
    case (Inl msg)
    show ?thesis
    proof (cases "is_quota_error msg")
      case True
      with Cons.prems ub Inl have "evs = [UploadFile f (Inl msg)]" by simp
      with True show ?thesis by (simp add: quota_failed_def)
    next
      case False
      obtain res s2 evs2 where rec: "upload_batch R rest toks paths s1 = (res, s2, evs2)"
        by (cases "upload_batch R rest toks paths s1")
      with Cons.prems ub Inl False have e: "res = None" "evs = UploadFile f (Inl msg) # evs2"
        by auto
      from Cons.IH [OF rec [unfolded e(1)]] show ?thesis
        using e(2) False by (auto simp: quota_failed_def)
    qed
  next
    case (Inr tok)
    obtain res s2 evs2 where rec:
      "upload_batch R rest (toks @ [tok]) (paths @ [f]) s1 = (res, s2, evs2)"
      by (cases "upload_batch R rest (toks @ [tok]) (paths @ [f]) s1")
    with Cons.prems ub Inr have e: "res = None" "evs = UploadFile f (Inr tok) # evs2" by auto
    from Cons.IH [OF rec [unfolded e(1)]] show ?thesis
      using e(2) by (auto simp: quota_failed_def)
  qed
qed

lemma committed_append_right: "committed evs f \<Longrightarrow> committed (evs @ ys) f"
proof -
  assume "committed evs f"
  then obtain pre mid post tok toks a ids where
    "evs = pre @ UploadFile f (Inr tok) # mid @ CommitBatch toks a (Inr ids) # post" "tok \<in> set toks"
    unfolding committed_def by blast
  then have "evs @ ys = pre @ UploadFile f (Inr tok) # mid @ CommitBatch toks a (Inr ids) # (post @ ys) \<and> tok \<in> set toks"
    by simp
  then show ?thesis unfolding committed_def by blast
qed

lemma run_inv_refl: "run_inv db db True []"
  by (simp add: run_inv_def)

lemma run_inv_prefix:
  assumes r: "run_inv db1 db' ok evs2"
    and pre: "\<forall>ev \<in> set pre. \<not> quota_failed ev"
    and up: "\<forall>p. is_file_uploaded db p \<longrightarrow> is_file_uploaded db1 p"
    and dn: "\<forall>p. is_file_uploaded db1 p \<longrightarrow>
        is_file_uploaded db p \<or> (\<exists>f. as_posix f = as_posix p \<and> committed (pre @ evs2) f)"
  shows "run_inv db db' ok (pre @ evs2)"
proof -
  have a: "\<forall>p. is_file_uploaded db p \<longrightarrow> is_file_uploaded db' p"
    using r up by (simp add: run_inv_def)
  have b: "\<forall>p. is_file_uploaded db' p \<longrightarrow>
        is_file_uploaded db p \<or> (\<exists>f. as_posix f = as_posix p \<and> committed (pre @ evs2) f)"
  proof (intro allI impI)
    fix p assume "is_file_uploaded db' p"
    then consider "is_file_uploaded db1 p" | f where "as_posix f = as_posix p" "committed evs2 f"
      using r by (auto simp: run_inv_def)
    then show "is_file_uploaded db p \<or> (\<exists>f. as_posix f = as_posix p \<and> committed (pre @ evs2) f)"
    proof cases
      case 1
      then show ?thesis using dn by blast
    next
      case 2
      then show ?thesis using committed_append_left by blast
    qed
  qed
  have c: "ok \<longrightarrow> (\<forall>ev \<in> set (pre @ evs2). \<not> quota_failed ev)"
    using r pre by (auto simp: run_inv_def)
  have d: "\<forall>ev \<in> set (butlast (pre @ evs2)). \<not> quota_failed ev"
    using r pre by (auto simp: run_inv_def butlast_append dest: in_set_butlastD)
  from a b c d show ?thesis by (simp add: run_inv_def)
qed

subsection \<open>The loop over the batches\<close>

lemma upload_batches_folders:
  "upload_batches R fp aid bs db s = (ok, db', s', evs) \<Longrightarrow> folders db' = folders db"
proof (induction bs arbitrary: db s ok db' s' evs)
  case Nil
  then show ?case by simp
next
  case (Cons b rest)
  from Cons.prems show ?case
    by (auto split: prod.splits option.splits if_splits sum.splits dest!: Cons.IH)
qed

lemma upload_batches_abort:
  "upload_batches R fp aid bs db s = (False, db', s', evs) \<Longrightarrow> evs \<noteq> [] \<and> quota_failed (last evs)"
proof (induction bs arbitrary: db s db' s' evs)
  case Nil
  then show ?case by simp
next
  case (Cons b rest)
  from Cons.prems show ?case
    by (auto split: prod.splits option.splits if_splits sum.splits
        dest!: Cons.IH upload_batch_none simp: quota_failed_def)
qed

lemma upload_batches_inv:
  "upload_batches R fp aid bs db s = (ok, db', s', evs) \<Longrightarrow> run_inv db db' ok evs"
proof (induction bs arbitrary: db s ok db' s' evs)
  case Nil
  then show ?case by (auto simp: run_inv_def)
next
  case (Cons b rest)
  obtain res s1 evb where ub: "upload_batch R b [] [] s = (res, s1, evb)"
    by (cases "upload_batch R b [] [] s")
  show ?case
  proof (cases res)
    case None
    with Cons.prems ub have e: "ok = False" "db' = db" "evs = evb" by auto
    from upload_batch_none [OF ub [unfolded None]] show ?thesis
      unfolding e run_inv_def by simp
  next
    case (Some tp)
    obtain toks paths where tp: "tp = (toks, paths)" by (cases tp)
    from upload_batch_some [OF ub [unfolded Some tp]]
    have len: "length toks = length paths"
      and ups: "\<forall>i < length paths. UploadFile (paths ! i) (Inr (toks ! i)) \<in> set evb"
      and nq: "\<forall>ev \<in> set evb. \<not> quota_failed ev" by auto
    show ?thesis
    proof (cases "toks = []")
      case True
      obtain ok2 db2 s2 evs2 where rec: "upload_batches R fp aid rest db s1 = (ok2, db2, s2, evs2)"
        by (cases "upload_batches R fp aid rest db s1")
      with Cons.prems ub Some tp True have e: "ok = ok2" "db' = db2" "evs = evb @ evs2" by auto
      show ?thesis unfolding e
        by (rule run_inv_prefix [OF Cons.IH [OF rec] nq]) simp_all
    next
      case False
      obtain r s2 where bc: "batch_create_media_items R s1 toks aid = (r, s2)"
        by (cases "batch_create_media_items R s1 toks aid")
      show ?thesis
      proof (cases r)
        case (Inr created)
        obtain ok3 db3 s3 evs3 where rec:
          "upload_batches R fp aid rest (mark_all db paths fp) s2 = (ok3, db3, s3, evs3)"
          by (cases "upload_batches R fp aid rest (mark_all db paths fp) s2")
        with Cons.prems ub Some tp False bc Inr have e: "ok = ok3" "db' = db3"
          "evs = (evb @ [CommitBatch toks aid (Inr created)]) @ evs3" by auto
        have nq': "\<forall>ev \<in> set (evb @ [CommitBatch toks aid (Inr created)]). \<not> quota_failed ev"
          using nq by (auto simp: quota_failed_def)
        have dn: "\<forall>p. is_file_uploaded (mark_all db paths fp) p \<longrightarrow>
            is_file_uploaded db p \<or>
            (\<exists>f. as_posix f = as_posix p \<and>
                 committed ((evb @ [CommitBatch toks aid (Inr created)]) @ evs3) f)"
        proof (intro allI impI)
          fix p assume "is_file_uploaded (mark_all db paths fp) p"
          then consider "is_file_uploaded db p" | "as_posix p \<in> as_posix ` set paths"
            by (auto simp: is_uploaded_mark_all)
          then show "is_file_uploaded db p \<or>
            (\<exists>f. as_posix f = as_posix p \<and>
                 committed ((evb @ [CommitBatch toks aid (Inr created)]) @ evs3) f)"
          proof cases
            case 1
            then show ?thesis by simp
          next
            case 2
            then obtain i where i: "i < length paths" "as_posix (paths ! i) = as_posix p"
              by (auto simp: in_set_conv_nth)
            with ups len have "UploadFile (paths ! i) (Inr (toks ! i)) \<in> set evb"
              "toks ! i \<in> set toks" by auto
            then have "committed (evb @ CommitBatch toks aid (Inr created) # evs3) (paths ! i)"
              by (rule committed_upload_commit)
            with i(2) show ?thesis by auto
          qed
        qed
        show ?thesis unfolding e
          by (rule run_inv_prefix [OF Cons.IH [OF rec] nq' _ dn]) (simp add: is_uploaded_mark_all)
      next
        case (Inl msg)
        show ?thesis
        proof (cases "is_quota_error msg")
          case True
          with Cons.prems ub Some tp False bc Inl have e: "ok = False" "db' = db"
            "evs = evb @ [CommitBatch toks aid (Inl msg)]" by auto
          show ?thesis unfolding e run_inv_def using nq by simp
        next
          case nquota: False
          obtain ok3 db3 s3 evs3 where rec:
            "upload_batches R fp aid rest db s2 = (ok3, db3, s3, evs3)"
            by (cases "upload_batches R fp aid rest db s2")
          with Cons.prems ub Some tp False bc Inl nquota have e: "ok = ok3" "db' = db3"
            "evs = (evb @ [CommitBatch toks aid (Inl msg)]) @ evs3" by auto
          have nq': "\<forall>ev \<in> set (evb @ [CommitBatch toks aid (Inl msg)]). \<not> quota_failed ev"
            using nq nquota by (auto simp: quota_failed_def)
          show ?thesis unfolding e
            by (rule run_inv_prefix [OF Cons.IH [OF rec] nq']) simp_all
        qed
      qed
    qed
  qed
qed

subsection \<open>The files of a folder\<close>

lemma get_mark_all [simp]:
  "get_folder_resumption_data (mark_all db ps fp) q = get_folder_resumption_data db q"
  by (simp add: get_folder_resumption_data_def)

lemma get_cong: "folders db1 = folders db2 \<Longrightarrow>
  get_folder_resumption_data db1 q = get_folder_resumption_data db2 q"
  by (simp add: get_folder_resumption_data_def)

lemma set_status_folders_cong: "folders db1 = folders db2 \<Longrightarrow>
  folders (set_folder_status db1 p st) = folders (set_folder_status db2 p st)"
  by (simp add: set_folder_status_def Let_def split: option.splits)

lemma run_inv_set_status:
  "run_inv db db1 ok evs \<Longrightarrow> run_inv db (set_folder_status db1 p st) ok evs"
  by (simp add: run_inv_def)

lemma transfer_files_folders:
  assumes "transfer_files R walk fp aid db s = (ok, db', s', evs)"
  shows "folders db' = folders (if ok then set_folder_status db fp ''processed'' else db)"
proof (cases "gather_files (walk fp) = [] \<or>
    filter (\<lambda>f. \<not> is_file_uploaded db f) (gather_files (walk fp)) = []")
  case True
  with assms show ?thesis by (auto simp: transfer_files_def Let_def split: if_splits)
next
  case False
  obtain ok1 db1 s1 evs1 where ub:
    "upload_batches R fp aid
       (batches BATCH_SIZE (filter (\<lambda>f. \<not> is_file_uploaded db f) (gather_files (walk fp)))) db s
     = (ok1, db1, s1, evs1)"
    by (cases "upload_batches R fp aid
       (batches BATCH_SIZE (filter (\<lambda>f. \<not> is_file_uploaded db f) (gather_files (walk fp)))) db s")
  have f: "folders db1 = folders db" using ub by (rule upload_batches_folders)
  from assms False ub have "ok = ok1" "db' = (if ok1 then set_folder_status db1 fp ''processed'' else db1)"
    by (auto simp: transfer_files_def Let_def split: if_splits)
  then show ?thesis using f set_status_folders_cong [OF f] by (cases ok1) simp_all
qed

lemma transfer_files_inv:
  assumes "transfer_files R walk fp aid db s = (ok, db', s', evs)"
  shows "run_inv db db' ok evs"
proof (cases "gather_files (walk fp) = [] \<or>
    filter (\<lambda>f. \<not> is_file_uploaded db f) (gather_files (walk fp)) = []")
  case True
  with assms have "ok" "evs = []" "db' = set_folder_status db fp ''processed''"
    by (auto simp: transfer_files_def Let_def split: if_splits)
  then show ?thesis using run_inv_set_status [OF run_inv_refl] by simp
next
  case False
  obtain ok1 db1 s1 evs1 where ub:
    "upload_batches R fp aid
       (batches BATCH_SIZE (filter (\<lambda>f. \<not> is_file_uploaded db f) (gather_files (walk fp)))) db s
     = (ok1, db1, s1, evs1)"
    by (cases "upload_batches R fp aid
       (batches BATCH_SIZE (filter (\<lambda>f. \<not> is_file_uploaded db f) (gather_files (walk fp)))) db s")
  have i: "run_inv db db1 ok1 evs1" using ub by (rule upload_batches_inv)
  from assms False ub have "ok = ok1" "evs = evs1"
    "db' = (if ok1 then set_folder_status db1 fp ''processed'' else db1)"
    by (auto simp: transfer_files_def Let_def split: if_splits)
  then show ?thesis using i by (cases ok1) (simp_all add: run_inv_set_status)
qed

lemma transfer_files_abort:
  assumes "transfer_files R walk fp aid db s = (False, db', s', evs)"
  shows "evs \<noteq> [] \<and> quota_failed (last evs)"
proof -
  from assms obtain db1 where
    "upload_batches R fp aid
       (batches BATCH_SIZE (filter (\<lambda>f. \<not> is_file_uploaded db f) (gather_files (walk fp)))) db s
     = (False, db1, s', evs)"
    by (auto simp: transfer_files_def Let_def split: if_splits prod.splits)
  then show ?thesis by (rule upload_batches_abort)
qed

subsection \<open>The cases of a run\<close>

text \<open>A run of \<^verbatim>\<open>process_folder\<close> in three cases: the folder is processed, its album is to be created, or its files are transferred at once.\<close>

lemma get_as_posix [simp]:
  "get_folder_resumption_data db (as_posix p) = get_folder_resumption_data db p"
  by (simp add: get_folder_resumption_data_def as_posix_idem)

lemma process_folder_cases:
  "process_folder R walk path db s =
     (if folder_processed db path then (True, db, s, [])
      else if is_album_folder path \<and> \<not> truthy (existing_album db path) then
        (case create_album R s (basename (as_posix path)) of
           (Inl msg, s1) \<Rightarrow> (False, db, s1, [CreateAlbum (basename (as_posix path)) (Inl msg)])
         | (Inr aid, s1) \<Rightarrow>
             (case transfer_files R walk (as_posix path) aid
                     (set_folder_album db (as_posix path) aid) s1 of
                (ok, db2, s2, evs) \<Rightarrow>
                  (ok, db2, s2, CreateAlbum (basename (as_posix path)) (Inr aid) # evs)))
      else transfer_files R walk (as_posix path) (existing_album db path) db s)"
  by (simp add: process_folder_def Let_def folder_processed_def is_album_folder_def
      existing_album_def split: sum.splits prod.splits)

lemma process_folder_short:
  "folder_processed db path \<Longrightarrow> process_folder R walk path db s = (True, db, s, [])"
  by (simp add: process_folder_cases)

lemma process_folder_inv:
  assumes "process_folder R walk path db s = (ok, db', s', evs)"
  shows "run_inv db db' ok evs"
proof (cases "folder_processed db path")
  case True
  with assms show ?thesis by (auto simp: process_folder_cases run_inv_refl)
next
  case np: False
  show ?thesis
  proof (cases "is_album_folder path \<and> \<not> truthy (existing_album db path)")
    case False
    with assms np have "transfer_files R walk (as_posix path) (existing_album db path) db s
        = (ok, db', s', evs)" by (auto simp: process_folder_cases)
    then show ?thesis by (rule transfer_files_inv)
  next
    case True
    obtain r s1 where ca: "create_album R s (basename (as_posix path)) = (r, s1)"
      by (cases "create_album R s (basename (as_posix path))")
    show ?thesis
    proof (cases r)
      case (Inl msg)
      with assms np True ca have "ok = False" "db' = db" "length evs = 1"
        by (auto simp: process_folder_cases)
      then show ?thesis by (cases evs) (auto simp: run_inv_def)
    next
      case (Inr aid)
      obtain ok2 db2 s2 evs2 where tf:
        "transfer_files R walk (as_posix path) aid (set_folder_album db (as_posix path) aid) s1
           = (ok2, db2, s2, evs2)"
        by (cases "transfer_files R walk (as_posix path) aid
              (set_folder_album db (as_posix path) aid) s1")
      with assms np True ca Inr have e: "ok = ok2" "db' = db2"
        "evs = [CreateAlbum (basename (as_posix path)) (Inr aid)] @ evs2"
        by (auto simp: process_folder_cases)
      show ?thesis unfolding e
        by (rule run_inv_prefix [OF transfer_files_inv [OF tf]]) (simp_all add: quota_failed_def)
    qed
  qed
qed

lemma process_folder_abort:
  assumes "process_folder R walk path db s = (False, db', s', evs)"
  shows "evs \<noteq> []"
  using assms
  by (auto simp: process_folder_cases split: if_splits sum.splits prod.splits
      dest: transfer_files_abort)

lemma transfer_files_get_other:
  assumes "transfer_files R walk fp aid db s = (ok, db', s', evs)"
    and "as_posix q \<noteq> as_posix fp"
  shows "get_folder_resumption_data db' q = get_folder_resumption_data db q"
proof -
  have "get_folder_resumption_data db' q =
      get_folder_resumption_data (if ok then set_folder_status db fp ''processed'' else db) q"
    by (rule get_cong [OF transfer_files_folders [OF assms(1)]])
  then show ?thesis using assms(2) by (simp add: get_after_set_status)
qed

lemma process_folder_get_other:
  assumes "process_folder R walk path db s = (ok, db', s', evs)"
    and "as_posix q \<noteq> as_posix path"
  shows "get_folder_resumption_data db' q = get_folder_resumption_data db q"
proof (cases "folder_processed db path")
  case True
  with assms show ?thesis by (auto simp: process_folder_cases)
next
  case np: False
  have ne: "as_posix q \<noteq> as_posix (as_posix path)" using assms(2) by (simp add: as_posix_idem)
  show ?thesis
  proof (cases "is_album_folder path \<and> \<not> truthy (existing_album db path)")
    case False
    with assms np have "transfer_files R walk (as_posix path) (existing_album db path) db s
        = (ok, db', s', evs)" by (auto simp: process_folder_cases)
    then show ?thesis using ne by (rule transfer_files_get_other)
  next
    case True
    obtain r s1 where ca: "create_album R s (basename (as_posix path)) = (r, s1)"
      by (cases "create_album R s (basename (as_posix path))")
    show ?thesis
    proof (cases r)
      case (Inl msg)
      with assms np True ca have "db' = db" by (auto simp: process_folder_cases)
      then show ?thesis by simp
    next
      case (Inr aid)
      obtain ok2 db2 s2 evs2 where tf:
        "transfer_files R walk (as_posix path) aid (set_folder_album db (as_posix path) aid) s1
           = (ok2, db2, s2, evs2)"
        by (cases "transfer_files R walk (as_posix path) aid
              (set_folder_album db (as_posix path) aid) s1")
      with assms np True ca Inr have e: "db' = db2" by (auto simp: process_folder_cases)
      have "get_folder_resumption_data db2 q =
          get_folder_resumption_data (set_folder_album db (as_posix path) aid) q"
        using tf ne by (rule transfer_files_get_other)
      then show ?thesis using ne e by (simp add: get_after_set_album)
    qed
  qed
qed

subsection \<open>The last call of a run\<close>

lemmas run_defs = process_folder_def transfer_files_def gather_files_def batches_def BATCH_SIZE_def
  as_posix_def splitroot_def path_parts_def basename_def splitext_ext_def path_join_def
  startswith_def lower_def lower_char_def image_extensions_def get_folder_resumption_data_def
  set_folder_album_def set_folder_status_def is_file_uploaded_def mark_file_uploaded_def
  is_quota_error_def stub_service_def ok_service_def empty_db_def one_folder_def Let_def

lemma quota_failure_is_last:
  assumes run: "process_folder R walk path db s = (ok, db', s', evs)"
    and dec: "evs = pre_evs @ ev # post_evs"
    and q: "quota_failed ev"
  shows "\<not> ok \<and> post_evs = []"
proof -
  have inv: "run_inv db db' ok evs" using run by (rule process_folder_inv)
  have "ev \<in> set evs" using dec by simp
  with inv q have nok: "\<not> ok" by (auto simp: run_inv_def)
  have "post_evs = []"
  proof (rule ccontr)
    assume "post_evs \<noteq> []"
    then have "ev \<in> set (butlast evs)" using dec by (simp add: butlast_append)
    with inv q show False by (auto simp: run_inv_def)
  qed
  with nok show ?thesis by simp
qed

subsection \<open>What a run keeps\<close>

lemma folder_processed_cong:
  "as_posix q = as_posix p \<Longrightarrow> folder_processed db q = folder_processed db p"
  by (simp add: folder_processed_def get_folder_resumption_data_def)

lemma process_folder_keeps_processed:
  assumes run: "process_folder R walk path db s = (ok, db', s', evs)"
    and fp: "folder_processed db q"
  shows "folder_processed db' q"
proof (cases "as_posix q = as_posix path")
  case True
  then have "folder_processed db path" using fp folder_processed_cong by blast
  then have "process_folder R walk path db s = (True, db, s, [])" by (rule process_folder_short)
  with run have "db' = db" by simp
  with fp show ?thesis by simp
next
  case False
  with run have "get_folder_resumption_data db' q = get_folder_resumption_data db q"
    by (rule process_folder_get_other)
  with fp show ?thesis by (simp add: folder_processed_def)
qed

lemma process_folder_keeps_uploaded:
  assumes run: "process_folder R walk path db s = (ok, db', s', evs)"
    and up: "is_file_uploaded db p"
  shows "is_file_uploaded db' p"
  using process_folder_inv [OF run] up by (simp add: run_inv_def)

lemma transfer_loop_keeps:
  "transfer_loop R walk n todo q db s = Some (q', db', s', reps) \<Longrightarrow>
     (is_file_uploaded db p \<longrightarrow> is_file_uploaded db' p) \<and>
     (folder_processed db f \<longrightarrow> folder_processed db' f)"
proof (induction todo arbitrary: q db s reps)
  case Nil
  then show ?case by simp
next
  case (Cons a todo)
  obtain i folder where a: "a = (i, folder)" by (cases a)
  obtain ok db1 s1 evs where run: "process_folder R walk folder db s = (ok, db1, s1, evs)"
    by (cases "process_folder R walk folder db s")
  have step: "(is_file_uploaded db p \<longrightarrow> is_file_uploaded db1 p) \<and>
     (folder_processed db f \<longrightarrow> folder_processed db1 f)"
    using process_folder_keeps_uploaded [OF run] process_folder_keeps_processed [OF run] by blast
  show ?case
  proof (cases ok)
    case False
    with Cons.prems a run have "db' = db1" by simp
    with step show ?thesis by simp
  next
    case True
    with Cons.prems a run obtain h q1 reps1 where
      "transfer_loop R walk n todo q1 db1 s1 = Some (q', db', s', reps1)"
      by (auto split: list.splits option.splits)
    from Cons.IH [OF this] step show ?thesis by blast
  qed
qed

lemma migrate_keeps:
  "(is_file_uploaded db p \<longrightarrow> is_file_uploaded (migrate_json_to_db db items) p) \<and>
   (folder_processed db f \<longrightarrow> folder_processed (migrate_json_to_db db items) f)"
proof (induction items arbitrary: db)
  case Nil
  then show ?case by simp
next
  case (Cons a items)
  obtain fp st where a: "a = (fp, st)" by (cases a)
  show ?case using Cons.IH [of "if st = ''processed'' then set_folder_status db fp ''processed'' else db"]
    by (auto simp: a folder_processed_set_status)
qed

subsection \<open>Concrete paths\<close>

text \<open>The paths and names of the concrete runs below, evaluated once.\<close>

lemma as_posix_simple:
  "as_posix ''/t/A'' = ''/t/A''" "as_posix ''/t/A/f1.jpg'' = ''/t/A/f1.jpg''"
  "as_posix ''/t/A/f2.PNG'' = ''/t/A/f2.PNG''" "as_posix ''/t/A/f3.gif'' = ''/t/A/f3.gif''"
  "as_posix ''/t/A/f3.mp4'' = ''/t/A/f3.mp4''"
  "as_posix ''/t/Photos from 2019'' = ''/t/Photos from 2019''"
  "as_posix ''/t/Photos from 2019/f1.jpg'' = ''/t/Photos from 2019/f1.jpg''"
  by (simp_all add: as_posix_def splitroot_def path_parts_def)

lemma basename_simple:
  "basename ''/t/A'' = ''A''" "basename ''/t/Photos from 2019'' = ''Photos from 2019''"
  by (simp_all add: basename_def)

lemma image_file_simple:
  "lower (splitext_ext ''f1.jpg'') \<in> image_extensions"
  "lower (splitext_ext ''f2.PNG'') \<in> image_extensions"
  "lower (splitext_ext ''f3.gif'') \<in> image_extensions"
  "lower (splitext_ext ''f3.mp4'') \<notin> image_extensions"
  by (simp_all add: splitext_ext_def basename_def lower_def lower_char_def image_extensions_def)

lemma album_simple:
  "\<not> startswith (lower ''A'') ''photos from''"
  "startswith (lower ''Photos from 2019'') ''photos from''"
  by (simp_all add: startswith_def lower_def lower_char_def)

lemma startswith_single: "startswith (c # cs) [d] = (c = d)"
  by (simp add: startswith_def)

lemmas fast_defs = process_folder_def transfer_files_def gather_files_def batches_def BATCH_SIZE_def
  path_join_def startswith_single get_folder_resumption_data_def
  set_folder_album_def set_folder_status_def is_file_uploaded_def mark_file_uploaded_def
  stub_service_def ok_service_def empty_db_def one_folder_def Let_def
  as_posix_simple basename_simple image_file_simple album_simple

subsection \<open>Quota failures within a batch\<close>

lemma quota_failed_last_of_batch:
  assumes ub: "upload_batch R batch toks paths s0 = (res, s1, evb)"
    and mem: "ev \<in> set evb" and q: "quota_failed ev"
  shows "res = None \<and> last evb = ev"
proof (cases res)
  case (Some tp)
  obtain t p where "tp = (t, p)" by (cases tp)
  with ub Some have "upload_batch R batch toks paths s0 = (Some (t, p), s1, evb)" by simp
  from upload_batch_some [OF this] mem q show ?thesis by blast
next
  case None
  from upload_batch_none [OF ub [unfolded None]]
  have n: "evb \<noteq> []" "\<forall>e \<in> set (butlast evb). \<not> quota_failed e" by simp_all
  from n(1) obtain xs x where e: "evb = xs @ [x]" by (cases evb rule: rev_cases) auto
  with mem q n(2) have "last evb = ev" by auto
  with None show ?thesis by simp
qed

subsection \<open>The status of a folder after a run that returns true\<close>

lemma transfer_files_true_get:
  assumes "transfer_files R walk fp aid db s = (True, db', s', evs)"
  shows "get_folder_resumption_data db' fp =
     (case get_folder_resumption_data db fp of None \<Rightarrow> None | Some (a, old) \<Rightarrow> Some (a, ''processed''))"
proof -
  have "get_folder_resumption_data db' fp =
      get_folder_resumption_data (set_folder_status db fp ''processed'') fp"
    using get_cong [OF transfer_files_folders [OF assms]] by simp
  then show ?thesis by (simp add: get_after_set_status)
qed

lemma process_folder_true_get:
  assumes run: "process_folder R walk path db s = (True, db', s', evs)"
  shows "(case get_folder_resumption_data db' path of None \<Rightarrow> True | Some (a, st) \<Rightarrow> st = ''processed'')
     \<and> (is_album_folder path \<longrightarrow> get_folder_resumption_data db' path \<noteq> None)"
proof (cases "folder_processed db path")
  case True
  with run have "db' = db" by (simp add: process_folder_cases)
  with True show ?thesis by (auto simp: folder_processed_def split: option.splits)
next
  case np: False
  show ?thesis
  proof (cases "is_album_folder path \<and> \<not> truthy (existing_album db path)")
    case False
    with run np have tf: "transfer_files R walk (as_posix path) (existing_album db path) db s
        = (True, db', s', evs)" by (auto simp: process_folder_cases)
    have g: "get_folder_resumption_data db' path =
       (case get_folder_resumption_data db path of None \<Rightarrow> None
        | Some (a, old) \<Rightarrow> Some (a, ''processed''))"
      using transfer_files_true_get [OF tf] by simp
    have "is_album_folder path \<longrightarrow> get_folder_resumption_data db path \<noteq> None"
      using False by (auto simp: existing_album_def split: option.splits)
    with g show ?thesis by (auto split: option.splits)
  next
    case True
    obtain r s1 where ca: "create_album R s (basename (as_posix path)) = (r, s1)"
      by (cases "create_album R s (basename (as_posix path))")
    show ?thesis
    proof (cases r)
      case (Inl msg)
      with run np True ca show ?thesis by (simp add: process_folder_cases)
    next
      case (Inr aid)
      with run np True ca obtain evs2 where tf:
        "transfer_files R walk (as_posix path) aid (set_folder_album db (as_posix path) aid) s1
           = (True, db', s', evs2)"
        by (auto simp: process_folder_cases split: prod.splits)
      have "get_folder_resumption_data db' path =
         (case get_folder_resumption_data (set_folder_album db (as_posix path) aid) path of
            None \<Rightarrow> None | Some (a, old) \<Rightarrow> Some (a, ''processed''))"
        using transfer_files_true_get [OF tf] by simp
      then show ?thesis by (auto simp: get_after_set_album as_posix_idem split: option.splits)
    qed
  qed
qed

subsection \<open>Folders without image files\<close>

lemma empty_folder_transfer:
  "gather_files (walk fp) = [] \<Longrightarrow>
     transfer_files R walk fp aid db s = (True, set_folder_status db fp ''processed'', s, [])"
  by (simp add: transfer_files_def)

lemma folder_processed_after_status:
  "get_folder_resumption_data db p \<noteq> None \<Longrightarrow>
     folder_processed (set_folder_status db (as_posix p) ''processed'') p"
  by (auto simp: folder_processed_def get_after_set_status as_posix_idem split: option.splits)

lemma album_id_record: "truthy (existing_album db path) \<Longrightarrow> get_folder_resumption_data db path \<noteq> None"
  by (auto simp: existing_album_def split: option.splits)

lemma gather_files_set:
  "f \<in> set (gather_files walked) \<longleftrightarrow>
     (\<exists>root names name. (root, names) \<in> set walked \<and> name \<in> set names \<and>
        lower (splitext_ext name) \<in> image_extensions \<and> f = path_join root name)"
  by (auto simp: gather_files_def)

subsection \<open>The session\<close>

lemma transfer_loop_refines:
  "run_session R walk q db s = (q', db', s', runs) \<Longrightarrow>
     transfer_loop R walk n (enumerate k q) q db s = Some (q', db', s', session_reports k n runs)"
proof (induction q arbitrary: k db s q' db' s' runs)
  case Nil
  then show ?case by simp
next
  case (Cons f fs)
  obtain ok db1 s1 evs where run: "process_folder R walk f db s = (ok, db1, s1, evs)"
    by (cases "process_folder R walk f db s")
  show ?case
  proof (cases ok)
    case False
    with Cons.prems run have "q' = f # fs" "db' = db1" "s' = s1" "runs = [(f, False, evs)]"
      by simp_all
    with run False show ?thesis by simp
  next
    case True
    obtain q2 db2 s2 runs2 where rec: "run_session R walk fs db1 s1 = (q2, db2, s2, runs2)"
      by (cases "run_session R walk fs db1 s1")
    with Cons.prems run True have e: "q' = q2" "db' = db2" "s' = s2" "runs = (f, True, evs) # runs2"
      by simp_all
    from Cons.IH [OF rec, of "Suc k"] run True show ?thesis by (simp add: e)
  qed
qed

lemma run_session_shape:
  "run_session R walk q db s = (q', db', s', runs) \<Longrightarrow>
     map fst runs = take (length runs) q \<and>
     q' = drop (length (filter (\<lambda>r. fst (snd r)) runs)) q \<and>
     (\<forall>r \<in> set (butlast runs). fst (snd r)) \<and>
     (runs \<noteq> [] \<and> \<not> fst (snd (last runs)) \<longrightarrow> q' \<noteq> [] \<and> hd q' = fst (last runs)) \<and>
     ((\<forall>r \<in> set runs. fst (snd r)) \<longrightarrow> q' = [] \<and> length runs = length q)"
proof (induction q arbitrary: db s q' db' s' runs)
  case Nil
  then show ?case by simp
next
  case (Cons f fs)
  obtain ok db1 s1 evs where run: "process_folder R walk f db s = (ok, db1, s1, evs)"
    by (cases "process_folder R walk f db s")
  show ?case
  proof (cases ok)
    case False
    with Cons.prems run have "q' = f # fs" "runs = [(f, False, evs)]" by simp_all
    then show ?thesis by simp
  next
    case True
    obtain q2 db2 s2 runs2 where rec: "run_session R walk fs db1 s1 = (q2, db2, s2, runs2)"
      by (cases "run_session R walk fs db1 s1")
    with Cons.prems run True have e: "q' = q2" "runs = (f, True, evs) # runs2" by simp_all
    from Cons.IH [OF rec] show ?thesis unfolding e by (cases "runs2 = []") auto
  qed
qed

subsection \<open>What the normalization keeps and what it identifies\<close>














section \<open>The properties\<close>

text \<open>
  C10. A failure is taken for a quota error exactly when its text contains \<open>quota\<close> in
  any letter case or contains \<open>429\<close>. So when any remote call of a run fails with a
  text that contains \<open>429\<close>, whatever the cause, \<^verbatim>\<open>process_folder\<close> returns
  \<^verbatim>\<open>False\<close> and makes no further remote call.
\<close>

theorem quota_classification:
  "(is_quota_error msg \<longleftrightarrow>
      (\<exists>pre post. lower msg = pre @ ''quota'' @ post) \<or> (\<exists>pre post. msg = pre @ ''429'' @ post)) \<and>
   (process_folder R walk path db s = (ok, db', s', evs) \<longrightarrow> evs = pre_evs @ ev # post_evs \<longrightarrow>
      failure ev = Some msg \<longrightarrow> (\<exists>pre post. msg = pre @ ''429'' @ post) \<longrightarrow>
      \<not> ok \<and> post_evs = [])"
proof (intro conjI impI)
  show "is_quota_error msg \<longleftrightarrow>
      (\<exists>pre post. lower msg = pre @ ''quota'' @ post) \<or> (\<exists>pre post. msg = pre @ ''429'' @ post)"
    unfolding is_quota_error_def contains_iff ..
next
  assume run: "process_folder R walk path db s = (ok, db', s', evs)"
    and dec: "evs = pre_evs @ ev # post_evs"
    and f: "failure ev = Some msg"
    and c: "\<exists>pre post. msg = pre @ ''429'' @ post"
  from c have "is_quota_error msg" unfolding is_quota_error_def contains_iff by blast
  with f have "quota_failed ev" by (simp add: quota_failed_def)
  with run dec have r: "\<not> ok \<and> post_evs = []" by (rule quota_failure_is_last)
  from r show "\<not> ok" ..
  from r show "post_evs = []" ..
qed

theorem quota_classification_witness:
  "process_folder (stub_service (\<lambda>t. None)
        (\<lambda>f. if f = ''/t/A/img_4291.jpg'' then Some ''Upload failed for /t/A/img_4291.jpg: corrupt''
              else None) (\<lambda>ts. None))
      (one_folder ''/t/A'' [''img_4291.jpg'', ''next.jpg'']) ''/t/A''
      (set_folder_album empty_db ''/t/A'' (Some ''album:A'')) 0
    = (False, set_folder_album empty_db ''/t/A'' (Some ''album:A''), 1,
       [] @ UploadFile ''/t/A/img_4291.jpg'' (Inl ''Upload failed for /t/A/img_4291.jpg: corrupt'') # [])
   \<and> (\<exists>pre post. ''Upload failed for /t/A/img_4291.jpg: corrupt'' = pre @ ''429'' @ post)
   \<and> \<not> is_quota_error ''Upload failed for /t/A/img_1.jpg: corrupt''"
proof -
  let ?msg = "''Upload failed for /t/A/img_4291.jpg: corrupt''"
  let ?R = "stub_service (\<lambda>t. None) (\<lambda>f. if f = ''/t/A/img_4291.jpg'' then Some ?msg else None)
      (\<lambda>ts. None)"
  let ?db = "set_folder_album empty_db ''/t/A'' (Some ''album:A'')"
  have run: "process_folder ?R (one_folder ''/t/A'' [''img_4291.jpg'', ''next.jpg'']) ''/t/A'' ?db 0
      = (False, ?db, 1, [] @ UploadFile ''/t/A/img_4291.jpg'' (Inl ?msg) # [])"
    by (simp add: run_defs)
  have "?msg = ''Upload failed for /t/A/img_'' @ ''429'' @ ''1.jpg: corrupt''" by simp
  then have c: "\<exists>pre post. ?msg = pre @ ''429'' @ post" by blast
  have n: "\<not> is_quota_error ''Upload failed for /t/A/img_1.jpg: corrupt''"
    by (simp add: is_quota_error_def startswith_def lower_def lower_char_def)
  from quota_classification [of ?msg ?R "one_folder ''/t/A'' [''img_4291.jpg'', ''next.jpg'']"
      "''/t/A''" ?db 0 False ?db 1 _ "[]" "UploadFile ''/t/A/img_4291.jpg'' (Inl ?msg)" "[]"]
    run c n
  show ?thesis by blast
qed

text \<open>
  C9. Recorded progress is monotone. From any store, whatever the engine does next
  (processing a folder, running a whole session, importing the legacy file; whatever the
  remote service answers, errors included), a file recorded as uploaded is still
  recorded as uploaded and a folder recorded as processed is still recorded as
  processed.
\<close>

theorem recorded_progress_monotone:
  "engine_reach R db db' \<Longrightarrow>
     (is_file_uploaded db p \<longrightarrow> is_file_uploaded db' p) \<and>
     (folder_processed db f \<longrightarrow> folder_processed db' f)"
proof (induction rule: engine_reach.induct)
  case (reach_start db)
  then show ?case by simp
next
  case (reach_folder db db1 walk path s ok db2 s2 evs)
  have "is_file_uploaded db1 p \<longrightarrow> is_file_uploaded db2 p"
    using process_folder_keeps_uploaded [OF reach_folder.hyps(2)] by blast
  moreover have "folder_processed db1 f \<longrightarrow> folder_processed db2 f"
    using process_folder_keeps_processed [OF reach_folder.hyps(2)] by blast
  ultimately show ?case using reach_folder.IH by blast
next
  case (reach_session db db1 walk q s q2 db2 s2 reps)
  from reach_session.hyps(2) obtain reps1 where
    "transfer_loop R walk (length q) (enumerate 0 q) q db1 s = Some (q2, db2, s2, reps1)"
    by (auto simp: start_transfer_def split: if_splits option.splits)
  from transfer_loop_keeps [OF this] reach_session.IH show ?case by blast
next
  case (reach_migrate db db1 items)
  then show ?case using migrate_keeps [of db1 p items f] by blast
qed

theorem recorded_progress_monotone_witness:
  "engine_reach ok_service
      (set_folder_status (set_folder_album (mark_file_uploaded empty_db ''/t/A/f1.jpg'' ''/t/A'')
          ''/t/A'' (Some ''album:A'')) ''/t/A'' ''processed'')
      (migrate_json_to_db
        (set_folder_status (set_folder_album (mark_file_uploaded empty_db ''/t/A/f1.jpg'' ''/t/A'')
          ''/t/A'' (Some ''album:A'')) ''/t/A'' ''processed'')
        [(''/t/B'', ''processed''), (''/t/A'', ''pending'')]) \<and>
   is_file_uploaded
      (set_folder_status (set_folder_album (mark_file_uploaded empty_db ''/t/A/f1.jpg'' ''/t/A'')
          ''/t/A'' (Some ''album:A'')) ''/t/A'' ''processed'') ''/t/A/f1.jpg'' \<and>
   folder_processed
      (set_folder_status (set_folder_album (mark_file_uploaded empty_db ''/t/A/f1.jpg'' ''/t/A'')
          ''/t/A'' (Some ''album:A'')) ''/t/A'' ''processed'') ''/t/A'' \<and>
   is_file_uploaded
      (migrate_json_to_db
        (set_folder_status (set_folder_album (mark_file_uploaded empty_db ''/t/A/f1.jpg'' ''/t/A'')
          ''/t/A'' (Some ''album:A'')) ''/t/A'' ''processed'')
        [(''/t/B'', ''processed''), (''/t/A'', ''pending'')]) ''/t/A/f1.jpg'' \<and>
   folder_processed
      (migrate_json_to_db
        (set_folder_status (set_folder_album (mark_file_uploaded empty_db ''/t/A/f1.jpg'' ''/t/A'')
          ''/t/A'' (Some ''album:A'')) ''/t/A'' ''processed'')
        [(''/t/B'', ''processed''), (''/t/A'', ''pending'')]) ''/t/A''"
proof -
  let ?db = "set_folder_status (set_folder_album (mark_file_uploaded empty_db ''/t/A/f1.jpg'' ''/t/A'')
          ''/t/A'' (Some ''album:A'')) ''/t/A'' ''processed''"
  let ?items = "[(''/t/B'', ''processed''), (''/t/A'', ''pending'')]"
  have r: "engine_reach ok_service ?db (migrate_json_to_db ?db ?items)"
    by (rule reach_migrate [OF reach_start])
  have u: "is_file_uploaded ?db ''/t/A/f1.jpg''"
    by (simp add: is_uploaded_mark)
  have p: "folder_processed ?db ''/t/A''"
    by (simp add: folder_processed_def get_after_set_status get_after_set_album split: option.splits)
  from recorded_progress_monotone [OF r, of "''/t/A/f1.jpg''" "''/t/A''"] r u p
  show ?thesis by blast
qed

text \<open>
  C1, as the code has it. A file that a run of \<^verbatim>\<open>process_folder\<close> newly records as
  uploaded has, in the trace of that run, an upload that succeeded and after it a commit
  that returned without an error and carried the token of that upload; when the commit
  of a batch returns without an error, whatever item ids it returns, every file uploaded
  in the batch is marked. When the commit of a batch fails with an error that is not
  taken for a quota error, the store after the batch is the store before it (no file of
  the batch is marked), the loop goes on with the next batch from that store, and it
  returns true if this was the last batch. The files that are left unmarked are not
  uploaded in the store after the run; but a run that returns true leaves a folder that
  has a record processed, so the next run, with any service and any walk, returns true
  at once and retries none of them.
\<close>

theorem marked_only_after_commit:
  "(process_folder R walk path db s = (ok, db', s', evs) \<longrightarrow>
      is_file_uploaded db' p \<longrightarrow> \<not> is_file_uploaded db p \<longrightarrow>
      (\<exists>f pre mid post tok toks a ids.
         as_posix f = as_posix p \<and>
         evs = pre @ UploadFile f (Inr tok) # mid @ CommitBatch toks a (Inr ids) # post \<and>
         tok \<in> set toks)) \<and>
   (upload_batch R batch [] [] s0 = (Some (tokens, paths), s1, evb) \<longrightarrow> tokens \<noteq> [] \<longrightarrow>
      batch_create_media_items R s1 tokens album_id = (Inl msg, s2) \<longrightarrow> \<not> is_quota_error msg \<longrightarrow>
      upload_batches R folder_path album_id [batch] db0 s0 =
        (True, db0, s2, evb @ [CommitBatch tokens album_id (Inl msg)]) \<and>
      upload_batches R folder_path album_id (batch # rest) db0 s0 =
        (case upload_batches R folder_path album_id rest db0 s2 of
           (ok2, db2, s3, evs2) \<Rightarrow>
             (ok2, db2, s3, evb @ CommitBatch tokens album_id (Inl msg) # evs2))) \<and>
   (upload_batch R batch [] [] s0 = (Some (tokens, paths), s1, evb) \<longrightarrow> tokens \<noteq> [] \<longrightarrow>
      batch_create_media_items R s1 tokens album_id = (Inr created, sc) \<longrightarrow>
      upload_batches R folder_path album_id [batch] db0 s0 =
        (True, mark_all db0 paths folder_path, sc,
         evb @ [CommitBatch tokens album_id (Inr created)])) \<and>
   (process_folder R walk path db s = (True, dbt, st, evt) \<longrightarrow>
      get_folder_resumption_data dbt path \<noteq> None \<longrightarrow>
      (\<forall>g. \<not> is_file_uploaded db g \<longrightarrow>
           \<not> (\<exists>g'. as_posix g' = as_posix g \<and> committed evt g') \<longrightarrow>
           \<not> is_file_uploaded dbt g) \<and>
      process_folder R2 walk2 path dbt su = (True, dbt, su, []))"
proof (intro conjI impI)
  assume run: "process_folder R walk path db s = (ok, db', s', evs)"
    and up: "is_file_uploaded db' p" and nu: "\<not> is_file_uploaded db p"
  from process_folder_inv [OF run] up nu
  have "\<exists>f. as_posix f = as_posix p \<and> committed evs f" by (auto simp: run_inv_def)
  then show "\<exists>f pre mid post tok toks a ids.
         as_posix f = as_posix p \<and>
         evs = pre @ UploadFile f (Inr tok) # mid @ CommitBatch toks a (Inr ids) # post \<and>
         tok \<in> set toks"
    unfolding committed_def by blast
next
  assume "upload_batch R batch [] [] s0 = (Some (tokens, paths), s1, evb)" "tokens \<noteq> []"
    "batch_create_media_items R s1 tokens album_id = (Inl msg, s2)" "\<not> is_quota_error msg"
  then show "upload_batches R folder_path album_id [batch] db0 s0 =
        (True, db0, s2, evb @ [CommitBatch tokens album_id (Inl msg)])" by simp
next
  assume "upload_batch R batch [] [] s0 = (Some (tokens, paths), s1, evb)" "tokens \<noteq> []"
    "batch_create_media_items R s1 tokens album_id = (Inl msg, s2)" "\<not> is_quota_error msg"
  then show "upload_batches R folder_path album_id (batch # rest) db0 s0 =
        (case upload_batches R folder_path album_id rest db0 s2 of
           (ok2, db2, s3, evs2) \<Rightarrow>
             (ok2, db2, s3, evb @ CommitBatch tokens album_id (Inl msg) # evs2))"
    by (simp split: prod.splits)
next
  assume "upload_batch R batch [] [] s0 = (Some (tokens, paths), s1, evb)" "tokens \<noteq> []"
    "batch_create_media_items R s1 tokens album_id = (Inr created, sc)"
  then show "upload_batches R folder_path album_id [batch] db0 s0 =
        (True, mark_all db0 paths folder_path, sc,
         evb @ [CommitBatch tokens album_id (Inr created)])"
    by (simp del: mark_all.simps)
next
  assume run: "process_folder R walk path db s = (True, dbt, st, evt)"
    and rec: "get_folder_resumption_data dbt path \<noteq> None"
  from process_folder_inv [OF run]
  show "\<forall>g. \<not> is_file_uploaded db g \<longrightarrow>
           \<not> (\<exists>g'. as_posix g' = as_posix g \<and> committed evt g') \<longrightarrow>
           \<not> is_file_uploaded dbt g"
    unfolding run_inv_def by blast
  from process_folder_true_get [OF run] rec
  have "folder_processed dbt path" by (auto simp: folder_processed_def split: option.splits)
  then show "process_folder R2 walk2 path dbt su = (True, dbt, su, [])"
    by (rule process_folder_short)
qed

theorem marked_only_after_commit_witness:
  "is_file_uploaded
     (fst (snd (process_folder ok_service (one_folder ''/t/A'' [''f1.jpg'']) ''/t/A''
        (set_folder_album empty_db ''/t/A'' (Some ''album:A'')) 0))) ''/t/A/f1.jpg'' \<and>
   \<not> is_file_uploaded (set_folder_album empty_db ''/t/A'' (Some ''album:A'')) ''/t/A/f1.jpg'' \<and>
   (\<exists>f pre mid post tok toks a ids.
      as_posix f = as_posix ''/t/A/f1.jpg'' \<and>
      snd (snd (snd (process_folder ok_service (one_folder ''/t/A'' [''f1.jpg'']) ''/t/A''
        (set_folder_album empty_db ''/t/A'' (Some ''album:A'')) 0))) =
      pre @ UploadFile f (Inr tok) # mid @ CommitBatch toks a (Inr ids) # post \<and> tok \<in> set toks) \<and>
   upload_batch (stub_service (\<lambda>t. None) (\<lambda>f. None) (\<lambda>ts. Some ''backend error''))
     [''/t/A/f1.jpg''] [] [] 0 =
     (Some ([''tok:/t/A/f1.jpg''], [''/t/A/f1.jpg'']), 1,
      [UploadFile ''/t/A/f1.jpg'' (Inr ''tok:/t/A/f1.jpg'')]) \<and>
   \<not> is_quota_error ''backend error'' \<and>
   upload_batches (stub_service (\<lambda>t. None) (\<lambda>f. None) (\<lambda>ts. Some ''backend error''))
     ''/t/A'' (Some ''album:A'') [[''/t/A/f1.jpg'']] empty_db 0 =
     (True, empty_db, 2,
      [UploadFile ''/t/A/f1.jpg'' (Inr ''tok:/t/A/f1.jpg'')] @
      [CommitBatch [''tok:/t/A/f1.jpg''] (Some ''album:A'') (Inl ''backend error'')]) \<and>
   upload_batches ok_service ''/t/A'' (Some ''album:A'') [[''/t/A/f1.jpg'']] empty_db 0 =
     (True, mark_all empty_db [''/t/A/f1.jpg''] ''/t/A'', 2,
      [UploadFile ''/t/A/f1.jpg'' (Inr ''tok:/t/A/f1.jpg'')] @
      [CommitBatch [''tok:/t/A/f1.jpg''] (Some ''album:A'') (Inr [''tok:/t/A/f1.jpg''])]) \<and>
   fst (process_folder (stub_service (\<lambda>t. None) (\<lambda>f. None) (\<lambda>ts. Some ''backend error''))
          (one_folder ''/t/A'' [''f1.jpg'']) ''/t/A''
          (set_folder_album empty_db ''/t/A'' (Some ''album:A'')) 0) = True \<and>
   process_folder ok_service (one_folder ''/t/A'' [''f1.jpg'']) ''/t/A''
     (fst (snd (process_folder (stub_service (\<lambda>t. None) (\<lambda>f. None) (\<lambda>ts. Some ''backend error''))
          (one_folder ''/t/A'' [''f1.jpg'']) ''/t/A''
          (set_folder_album empty_db ''/t/A'' (Some ''album:A'')) 0))) 7 =
     (True,
      fst (snd (process_folder (stub_service (\<lambda>t. None) (\<lambda>f. None) (\<lambda>ts. Some ''backend error''))
          (one_folder ''/t/A'' [''f1.jpg'']) ''/t/A''
          (set_folder_album empty_db ''/t/A'' (Some ''album:A'')) 0)), 7, [])"
proof -
  let ?db = "set_folder_album empty_db ''/t/A'' (Some ''album:A'')"
  let ?X = "process_folder ok_service (one_folder ''/t/A'' [''f1.jpg'']) ''/t/A'' ?db 0"
  let ?R = "stub_service (\<lambda>t. None) (\<lambda>f. None) (\<lambda>ts. Some ''backend error'')"
  have run: "?X = (fst ?X, fst (snd ?X), fst (snd (snd ?X)), snd (snd (snd ?X)))" by simp
  have up: "is_file_uploaded (fst (snd ?X)) ''/t/A/f1.jpg''" by (simp add: fast_defs)
  have nu: "\<not> is_file_uploaded ?db ''/t/A/f1.jpg''"
    by (simp add: is_file_uploaded_def empty_db_def)
  have ub: "upload_batch ?R [''/t/A/f1.jpg''] [] [] 0 =
     (Some ([''tok:/t/A/f1.jpg''], [''/t/A/f1.jpg'']), 1,
      [UploadFile ''/t/A/f1.jpg'' (Inr ''tok:/t/A/f1.jpg'')])"
    by (simp add: stub_service_def)
  have ne: "[''tok:/t/A/f1.jpg''] \<noteq> []" by simp
  have bc: "batch_create_media_items ?R 1 [''tok:/t/A/f1.jpg''] (Some ''album:A'') =
      (Inl ''backend error'', 2)"
    by (simp add: stub_service_def numeral_2_eq_2)
  have nq: "\<not> is_quota_error ''backend error''"
    by (simp add: is_quota_error_def startswith_def lower_def lower_char_def)
  note t1 = marked_only_after_commit [where R = ok_service
      and walk = "one_folder ''/t/A'' [''f1.jpg'']" and path = "''/t/A''" and db = ?db
      and s = 0 and ok = "fst ?X" and db' = "fst (snd ?X)" and s' = "fst (snd (snd ?X))"
      and evs = "snd (snd (snd ?X))" and p = "''/t/A/f1.jpg''",
      THEN conjunct1, rule_format, OF run up nu]
  note t2 = marked_only_after_commit [where R = ?R and batch = "[''/t/A/f1.jpg'']" and ?s0.0 = 0
      and tokens = "[''tok:/t/A/f1.jpg'']" and paths = "[''/t/A/f1.jpg'']" and ?s1.0 = 1
      and evb = "[UploadFile ''/t/A/f1.jpg'' (Inr ''tok:/t/A/f1.jpg'')]"
      and album_id = "Some ''album:A''" and msg = "''backend error''" and ?s2.0 = 2
      and folder_path = "''/t/A''" and ?db0.0 = empty_db,
      THEN conjunct2, THEN conjunct1, rule_format, OF ub ne bc nq, THEN conjunct1]
  let ?Y = "process_folder ?R (one_folder ''/t/A'' [''f1.jpg'']) ''/t/A'' ?db 0"
  have ub3: "upload_batch ok_service [''/t/A/f1.jpg''] [] [] 0 =
     (Some ([''tok:/t/A/f1.jpg''], [''/t/A/f1.jpg'']), 1,
      [UploadFile ''/t/A/f1.jpg'' (Inr ''tok:/t/A/f1.jpg'')])"
    by (simp add: ok_service_def stub_service_def)
  have bc3: "batch_create_media_items ok_service 1 [''tok:/t/A/f1.jpg''] (Some ''album:A'') =
      (Inr [''tok:/t/A/f1.jpg''], 2)"
    by (simp add: ok_service_def stub_service_def numeral_2_eq_2)
  note t3 = marked_only_after_commit [where R = ok_service and batch = "[''/t/A/f1.jpg'']"
      and ?s0.0 = 0 and tokens = "[''tok:/t/A/f1.jpg'']" and paths = "[''/t/A/f1.jpg'']"
      and ?s1.0 = 1 and evb = "[UploadFile ''/t/A/f1.jpg'' (Inr ''tok:/t/A/f1.jpg'')]"
      and album_id = "Some ''album:A''" and created = "[''tok:/t/A/f1.jpg'']" and sc = 2
      and folder_path = "''/t/A''" and ?db0.0 = empty_db,
      THEN conjunct2, THEN conjunct2, THEN conjunct1, rule_format, OF ub3 ne bc3]
  have y: "fst ?Y = True \<and> get_folder_resumption_data (fst (snd ?Y)) ''/t/A'' \<noteq> None"
    by (simp add: fast_defs nq)
  then have runy: "?Y = (True, fst (snd ?Y), fst (snd (snd ?Y)), snd (snd (snd ?Y)))"
    by (simp add: prod_eq_iff)
  from y have rec: "get_folder_resumption_data (fst (snd ?Y)) ''/t/A'' \<noteq> None" ..
  from y have oky: "fst ?Y = True" ..
  note t4 = marked_only_after_commit [where R = ?R and walk = "one_folder ''/t/A'' [''f1.jpg'']"
      and path = "''/t/A''" and db = ?db and s = 0 and dbt = "fst (snd ?Y)"
      and st = "fst (snd (snd ?Y))" and evt = "snd (snd (snd ?Y))" and ?R2.0 = ok_service
      and ?walk2.0 = "one_folder ''/t/A'' [''f1.jpg'']" and su = 7,
      THEN conjunct2, THEN conjunct2, THEN conjunct2, rule_format, OF runy rec, THEN conjunct2]
  from up nu t1 ub nq t2 t3 oky t4 show ?thesis by (intro conjI)
qed

theorem unmarked_files_not_retried:
  "process_folder
      (stub_service (\<lambda>t. None) (\<lambda>f. None) (\<lambda>ts. Some ''backend error''))
      (one_folder ''/t/A'' [''f1.jpg'']) ''/t/A'' empty_db 0 =
     (True,
      set_folder_status (set_folder_album empty_db ''/t/A'' (Some ''album:A'')) ''/t/A'' ''processed'',
      3,
      [CreateAlbum ''A'' (Inr (Some ''album:A'')),
       UploadFile ''/t/A/f1.jpg'' (Inr ''tok:/t/A/f1.jpg''),
       CommitBatch [''tok:/t/A/f1.jpg''] (Some ''album:A'') (Inl ''backend error'')]) \<and>
   \<not> is_file_uploaded
      (set_folder_status (set_folder_album empty_db ''/t/A'' (Some ''album:A'')) ''/t/A'' ''processed'')
      ''/t/A/f1.jpg'' \<and>
   process_folder ok_service (one_folder ''/t/A'' [''f1.jpg'']) ''/t/A''
      (set_folder_status (set_folder_album empty_db ''/t/A'' (Some ''album:A'')) ''/t/A'' ''processed'')
      3 =
     (True,
      set_folder_status (set_folder_album empty_db ''/t/A'' (Some ''album:A'')) ''/t/A'' ''processed'',
      3, [])"
proof -
  have nq: "\<not> is_quota_error ''backend error''"
    by (simp add: is_quota_error_def startswith_def lower_def lower_char_def)
  show ?thesis by (simp add: fast_defs nq numeral_3_eq_3)
qed

text \<open>
  C3. When an upload of a run of \<^verbatim>\<open>process_folder\<close> fails with an error taken for
  a quota error, the run returns \<^verbatim>\<open>False\<close> and that upload is its last remote call:
  no other file and no other batch is attempted. A file that was not uploaded in the
  store before the run and is not committed in its trace, as the files uploaded in the
  aborted batch, is not uploaded in the store after the run. For the batch itself: the
  loop over its files stops at the failing upload, and the loop over the batches returns
  \<^verbatim>\<open>False\<close> with the store unchanged, whatever batches follow.
\<close>

theorem quota_upload_aborts_folder:
  "(process_folder R walk path db s = (ok, db', s', evs) \<longrightarrow>
      evs = pre_evs @ UploadFile f (Inl msg) # post_evs \<longrightarrow> is_quota_error msg \<longrightarrow>
      \<not> ok \<and> post_evs = [] \<and>
      (\<forall>g. \<not> is_file_uploaded db g \<longrightarrow>
           \<not> (\<exists>g'. as_posix g' = as_posix g \<and> committed evs g') \<longrightarrow>
           \<not> is_file_uploaded db' g)) \<and>
   (upload_batch R batch [] [] s0 = (res, s1, evb) \<longrightarrow>
      UploadFile f (Inl msg) \<in> set evb \<longrightarrow> is_quota_error msg \<longrightarrow>
      res = None \<and> last evb = UploadFile f (Inl msg) \<and>
      upload_batches R folder_path album_id (batch # rest) db0 s0 = (False, db0, s1, evb))"
proof (intro conjI impI)
  assume run: "process_folder R walk path db s = (ok, db', s', evs)"
    and dec: "evs = pre_evs @ UploadFile f (Inl msg) # post_evs"
    and q: "is_quota_error msg"
  from q have qf: "quota_failed (UploadFile f (Inl msg))" by (simp add: quota_failed_def)
  from quota_failure_is_last [OF run dec qf] show "\<not> ok" "post_evs = []" by simp_all
  from process_folder_inv [OF run]
  show "\<forall>g. \<not> is_file_uploaded db g \<longrightarrow>
           \<not> (\<exists>g'. as_posix g' = as_posix g \<and> committed evs g') \<longrightarrow>
           \<not> is_file_uploaded db' g"
    unfolding run_inv_def by blast
next
  assume ub: "upload_batch R batch [] [] s0 = (res, s1, evb)"
    and mem: "UploadFile f (Inl msg) \<in> set evb" and q: "is_quota_error msg"
  from q have qf: "quota_failed (UploadFile f (Inl msg))" by (simp add: quota_failed_def)
  from quota_failed_last_of_batch [OF ub mem qf]
  have r: "res = None" and l: "last evb = UploadFile f (Inl msg)" by simp_all
  show "res = None" by (rule r)
  show "last evb = UploadFile f (Inl msg)" by (rule l)
  from ub r show "upload_batches R folder_path album_id (batch # rest) db0 s0 = (False, db0, s1, evb)"
    by simp
qed

theorem quota_upload_aborts_folder_witness:
  "upload_batch
      (stub_service (\<lambda>t. None)
         (\<lambda>f. if f = ''/t/A/f3.gif'' then Some ''Quota exceeded'' else None) (\<lambda>ts. None))
      [''/t/A/f1.jpg'', ''/t/A/f2.PNG'', ''/t/A/f3.gif'', ''/t/A/f4.jpg''] [] [] 0 =
      (None, 3, [UploadFile ''/t/A/f1.jpg'' (Inr ''tok:/t/A/f1.jpg''),
                 UploadFile ''/t/A/f2.PNG'' (Inr ''tok:/t/A/f2.PNG''),
                 UploadFile ''/t/A/f3.gif'' (Inl ''Quota exceeded'')]) \<and>
   is_quota_error ''Quota exceeded'' \<and>
   upload_batches
      (stub_service (\<lambda>t. None)
         (\<lambda>f. if f = ''/t/A/f3.gif'' then Some ''Quota exceeded'' else None) (\<lambda>ts. None))
      ''/t/A'' (Some ''album:A'')
      [[''/t/A/f1.jpg'', ''/t/A/f2.PNG'', ''/t/A/f3.gif'', ''/t/A/f4.jpg''], [''/t/A/f5.jpg'']]
      empty_db 0 =
      (False, empty_db, 3, [UploadFile ''/t/A/f1.jpg'' (Inr ''tok:/t/A/f1.jpg''),
                 UploadFile ''/t/A/f2.PNG'' (Inr ''tok:/t/A/f2.PNG''),
                 UploadFile ''/t/A/f3.gif'' (Inl ''Quota exceeded'')]) \<and>
   process_folder
      (stub_service (\<lambda>t. None)
         (\<lambda>f. if f = ''/t/A/f3.gif'' then Some ''Quota exceeded'' else None) (\<lambda>ts. None))
      (one_folder ''/t/A'' [''f1.jpg'', ''f2.PNG'', ''f3.gif'', ''f4.jpg'']) ''/t/A''
      (set_folder_album empty_db ''/t/A'' (Some ''album:A'')) 0 =
      (False, set_folder_album empty_db ''/t/A'' (Some ''album:A''), 3,
       [UploadFile ''/t/A/f1.jpg'' (Inr ''tok:/t/A/f1.jpg''),
        UploadFile ''/t/A/f2.PNG'' (Inr ''tok:/t/A/f2.PNG'')] @
        UploadFile ''/t/A/f3.gif'' (Inl ''Quota exceeded'') # []) \<and>
   \<not> is_file_uploaded (set_folder_album empty_db ''/t/A'' (Some ''album:A'')) ''/t/A/f1.jpg''"
proof -
  let ?R = "stub_service (\<lambda>t. None)
         (\<lambda>f. if f = ''/t/A/f3.gif'' then Some ''Quota exceeded'' else None) (\<lambda>ts. None)"
  let ?db = "set_folder_album empty_db ''/t/A'' (Some ''album:A'')"
  let ?evb = "[UploadFile ''/t/A/f1.jpg'' (Inr ''tok:/t/A/f1.jpg''),
                 UploadFile ''/t/A/f2.PNG'' (Inr ''tok:/t/A/f2.PNG''),
                 UploadFile ''/t/A/f3.gif'' (Inl ''Quota exceeded'')]"
  have q: "is_quota_error ''Quota exceeded''"
    by (simp add: is_quota_error_def startswith_def lower_def lower_char_def)
  have ub: "upload_batch ?R [''/t/A/f1.jpg'', ''/t/A/f2.PNG'', ''/t/A/f3.gif'', ''/t/A/f4.jpg'']
      [] [] 0 = (None, 3, ?evb)"
    by (simp add: stub_service_def q numeral_3_eq_3)
  have mem: "UploadFile ''/t/A/f3.gif'' (Inl ''Quota exceeded'') \<in> set ?evb" by simp
  have run: "process_folder ?R (one_folder ''/t/A'' [''f1.jpg'', ''f2.PNG'', ''f3.gif'', ''f4.jpg''])
      ''/t/A'' ?db 0 =
      (False, ?db, 3,
       [UploadFile ''/t/A/f1.jpg'' (Inr ''tok:/t/A/f1.jpg''),
        UploadFile ''/t/A/f2.PNG'' (Inr ''tok:/t/A/f2.PNG'')] @
        UploadFile ''/t/A/f3.gif'' (Inl ''Quota exceeded'') # [])"
    by (simp add: fast_defs q numeral_3_eq_3 as_posix_def splitroot_def path_parts_def
        splitext_ext_def basename_def lower_def lower_char_def image_extensions_def)
  have nu: "\<not> is_file_uploaded ?db ''/t/A/f1.jpg''"
    by (simp add: is_file_uploaded_def empty_db_def)
  note t1 = quota_upload_aborts_folder [where R = ?R and batch =
      "[''/t/A/f1.jpg'', ''/t/A/f2.PNG'', ''/t/A/f3.gif'', ''/t/A/f4.jpg'']" and ?s0.0 = 0
      and res = None and ?s1.0 = 3 and evb = ?evb and f = "''/t/A/f3.gif''"
      and msg = "''Quota exceeded''" and folder_path = "''/t/A''" and album_id = "Some ''album:A''"
      and rest = "[[''/t/A/f5.jpg'']]" and ?db0.0 = empty_db,
      THEN conjunct2, rule_format, OF ub mem q, THEN conjunct2, THEN conjunct2]
  note t2 = quota_upload_aborts_folder [where R = ?R and f = "''/t/A/f3.gif''"
      and msg = "''Quota exceeded''", THEN conjunct1, rule_format, OF run refl q]
  from ub q t1 run nu t2 show ?thesis by (intro conjI)
qed








text \<open>
  C5, at an input where the code breaks it. The folder \<^verbatim>\<open>/t/Photos from 2019\<close> is
  not an album folder and has no record in the store. \<^verbatim>\<open>process_folder\<close> uploads
  and commits its file and returns \<^verbatim>\<open>True\<close>, but
  \<^verbatim>\<open>set_folder_status\<close> is an update of a row that nothing has inserted: the
  folder has no record afterwards and is not processed in the store.
\<close>

theorem non_album_folder_never_recorded:
  "process_folder ok_service (one_folder ''/t/Photos from 2019'' [''f1.jpg''])
      ''/t/Photos from 2019'' empty_db 0 =
     (True, mark_file_uploaded empty_db ''/t/Photos from 2019/f1.jpg'' ''/t/Photos from 2019'', 2,
      [UploadFile ''/t/Photos from 2019/f1.jpg'' (Inr ''tok:/t/Photos from 2019/f1.jpg''),
       CommitBatch [''tok:/t/Photos from 2019/f1.jpg''] None
         (Inr [''tok:/t/Photos from 2019/f1.jpg''])]) \<and>
   get_folder_resumption_data
     (mark_file_uploaded empty_db ''/t/Photos from 2019/f1.jpg'' ''/t/Photos from 2019'')
     ''/t/Photos from 2019'' = None \<and>
   \<not> folder_processed
     (mark_file_uploaded empty_db ''/t/Photos from 2019/f1.jpg'' ''/t/Photos from 2019'')
     ''/t/Photos from 2019'' \<and>
   set_folder_status empty_db ''/t/Photos from 2019'' ''processed'' = empty_db"
  by (simp add: fast_defs folder_processed_def numeral_2_eq_2)

text \<open>
  C6, as the code has it. For a folder where the walk finds no image file,
  \<^verbatim>\<open>process_folder\<close> makes no upload and no commit. When the folder is processed
  already, is not an album folder or has an album id in the store, it returns
  \<^verbatim>\<open>True\<close> with no remote call, and a folder that has a record is processed
  afterwards. Otherwise the album is created first, before the walk: when that succeeds
  the run returns \<^verbatim>\<open>True\<close> with this one remote call and the folder is processed
  afterwards, and when it fails the run returns \<^verbatim>\<open>False\<close> and the store is
  unchanged.
\<close>

theorem empty_folder_processing:
  "gather_files (walk (as_posix path)) = [] \<Longrightarrow>
     (folder_processed db path \<or> \<not> is_album_folder path \<or> truthy (existing_album db path) \<longrightarrow>
        (\<exists>db1. process_folder R walk path db s = (True, db1, s, []) \<and>
           (get_folder_resumption_data db path \<noteq> None \<longrightarrow> folder_processed db1 path))) \<and>
     (\<not> folder_processed db path \<and> is_album_folder path \<and> \<not> truthy (existing_album db path) \<longrightarrow>
        (\<forall>aid s1. create_album R s (basename (as_posix path)) = (Inr aid, s1) \<longrightarrow>
           (\<exists>db1. process_folder R walk path db s =
                    (True, db1, s1, [CreateAlbum (basename (as_posix path)) (Inr aid)]) \<and>
                  folder_processed db1 path)) \<and>
        (\<forall>msg s1. create_album R s (basename (as_posix path)) = (Inl msg, s1) \<longrightarrow>
           process_folder R walk path db s =
             (False, db, s1, [CreateAlbum (basename (as_posix path)) (Inl msg)])))"
proof (intro conjI impI allI)
  assume e: "gather_files (walk (as_posix path)) = []"
    and c: "folder_processed db path \<or> \<not> is_album_folder path \<or> truthy (existing_album db path)"
  show "\<exists>db1. process_folder R walk path db s = (True, db1, s, []) \<and>
           (get_folder_resumption_data db path \<noteq> None \<longrightarrow> folder_processed db1 path)"
  proof (cases "folder_processed db path")
    case True
    then show ?thesis by (simp add: process_folder_short)
  next
    case False
    with c have "process_folder R walk path db s =
        (True, set_folder_status db (as_posix path) ''processed'', s, [])"
      by (auto simp: process_folder_cases empty_folder_transfer [of walk "as_posix path", OF e])
    then show ?thesis using folder_processed_after_status by blast
  qed
next
  fix aid s1
  assume e: "gather_files (walk (as_posix path)) = []"
    and c: "\<not> folder_processed db path \<and> is_album_folder path \<and> \<not> truthy (existing_album db path)"
    and ca: "create_album R s (basename (as_posix path)) = (Inr aid, s1)"
  let ?db1 = "set_folder_status (set_folder_album db (as_posix path) aid) (as_posix path) ''processed''"
  have "process_folder R walk path db s =
      (True, ?db1, s1, [CreateAlbum (basename (as_posix path)) (Inr aid)])"
    using c ca by (simp add: process_folder_cases empty_folder_transfer [of walk "as_posix path", OF e])
  moreover have "get_folder_resumption_data (set_folder_album db (as_posix path) aid) path \<noteq> None"
    by (simp add: get_after_set_album as_posix_idem split: option.splits)
  then have "folder_processed ?db1 path" by (rule folder_processed_after_status)
  ultimately show "\<exists>db1. process_folder R walk path db s =
                    (True, db1, s1, [CreateAlbum (basename (as_posix path)) (Inr aid)]) \<and>
                  folder_processed db1 path" by blast
next
  fix msg s1
  assume c: "\<not> folder_processed db path \<and> is_album_folder path \<and> \<not> truthy (existing_album db path)"
    and ca: "create_album R s (basename (as_posix path)) = (Inl msg, s1)"
  show "process_folder R walk path db s =
             (False, db, s1, [CreateAlbum (basename (as_posix path)) (Inl msg)])"
    using c ca by (simp add: process_folder_cases)
qed


theorem empty_folder_processing_witness:
  "gather_files (one_folder ''/t/A'' [''notes.txt''] (as_posix ''/t/A'')) = [] \<and>
   \<not> folder_processed empty_db ''/t/A'' \<and> is_album_folder ''/t/A'' \<and>
   \<not> truthy (existing_album empty_db ''/t/A'') \<and>
   create_album ok_service 0 (basename (as_posix ''/t/A'')) = (Inr (Some ''album:A''), 1) \<and>
   (\<exists>db1. process_folder ok_service (one_folder ''/t/A'' [''notes.txt'']) ''/t/A'' empty_db 0 =
            (True, db1, 1, [CreateAlbum (basename (as_posix ''/t/A'')) (Inr (Some ''album:A''))]) \<and>
          folder_processed db1 ''/t/A'')"
proof -
  have n: "lower (splitext_ext ''notes.txt'') \<notin> image_extensions"
    by (simp add: splitext_ext_def basename_def lower_def lower_char_def image_extensions_def)
  have e: "gather_files (one_folder ''/t/A'' [''notes.txt''] (as_posix ''/t/A'')) = []"
    by (simp add: gather_files_def one_folder_def as_posix_simple n)
  have c: "\<not> folder_processed empty_db ''/t/A'' \<and> is_album_folder ''/t/A'' \<and>
      \<not> truthy (existing_album empty_db ''/t/A'')"
    by (simp add: folder_processed_def existing_album_def get_folder_resumption_data_def
        empty_db_def is_album_folder_def as_posix_simple basename_simple album_simple)
  have ca: "create_album ok_service 0 (basename (as_posix ''/t/A'')) = (Inr (Some ''album:A''), 1)"
    by (simp add: ok_service_def stub_service_def as_posix_simple basename_simple)
  note t = empty_folder_processing [where walk = "one_folder ''/t/A'' [''notes.txt'']"
      and path = "''/t/A''" and db = empty_db and R = ok_service and s = 0, OF e,
      THEN conjunct2, rule_format, OF c, THEN conjunct1, rule_format, OF ca]
  from e c ca t show ?thesis by (intro conjI) simp_all
qed

theorem empty_album_folder_creates_album:
  "process_folder ok_service (one_folder ''/t/Empty'' []) ''/t/Empty'' empty_db 0 =
     (True,
      set_folder_status (set_folder_album empty_db ''/t/Empty'' (Some ''album:Empty''))
        ''/t/Empty'' ''processed'',
      1, [CreateAlbum ''Empty'' (Inr (Some ''album:Empty''))])"
proof -
  have p: "as_posix ''/t/Empty'' = ''/t/Empty''" "basename ''/t/Empty'' = ''Empty''"
    "\<not> startswith (lower ''Empty'') ''photos from''"
    by (simp_all add: as_posix_def splitroot_def path_parts_def basename_def startswith_def
        lower_def lower_char_def)
  have a: "\<not> folder_processed empty_db ''/t/Empty''" "is_album_folder ''/t/Empty''"
    "\<not> truthy (existing_album empty_db ''/t/Empty'')"
    by (simp_all add: folder_processed_def existing_album_def get_folder_resumption_data_def
        empty_db_def is_album_folder_def p)
  have e: "gather_files (one_folder ''/t/Empty'' [] ''/t/Empty'') = []"
    by (simp add: gather_files_def one_folder_def)
  show ?thesis
    by (simp add: process_folder_cases a p ok_service_def stub_service_def
        empty_folder_transfer [of "one_folder ''/t/Empty'' []" "''/t/Empty''", OF e])
qed

text \<open>
  C4, as the code has it. The files gathered from a walk are exactly the files whose
  extension, in lower case, is one of the six image extensions; no video extension is
  among them. For the folder \<^verbatim>\<open>/t/A\<close> without a record, with the image files
  \<^verbatim>\<open>f1.jpg\<close>, \<^verbatim>\<open>f2.PNG\<close> and \<^verbatim>\<open>f3.gif\<close>, none of them uploaded before,
  and a service whose calls succeed, \<^verbatim>\<open>process_folder\<close> creates the album, uploads
  each file once, commits the three tokens in one batch into the album and returns
  \<^verbatim>\<open>True\<close>; afterwards the three files are uploaded in the store and the folder is
  processed.
\<close>

theorem image_files_scenario:
  "(f \<in> set (gather_files walked) \<longleftrightarrow>
      (\<exists>root names name. (root, names) \<in> set walked \<and> name \<in> set names \<and>
         lower (splitext_ext name) \<in> {''.jpg'', ''.jpeg'', ''.png'', ''.gif'', ''.bmp'', ''.webp''} \<and>
         f = path_join root name)) \<and>
   (get_folder_resumption_data db ''/t/A'' = None \<longrightarrow>
    walk ''/t/A'' = [(''/t/A'', [''f1.jpg'', ''f2.PNG'', ''f3.gif''])] \<longrightarrow>
    \<not> is_file_uploaded db ''/t/A/f1.jpg'' \<longrightarrow> \<not> is_file_uploaded db ''/t/A/f2.PNG'' \<longrightarrow>
    \<not> is_file_uploaded db ''/t/A/f3.gif'' \<longrightarrow>
    create_album R s ''A'' = (Inr aid, s1) \<longrightarrow>
    upload_bytes R s1 ''/t/A/f1.jpg'' = (Inr t1, s2) \<longrightarrow>
    upload_bytes R s2 ''/t/A/f2.PNG'' = (Inr t2, s3) \<longrightarrow>
    upload_bytes R s3 ''/t/A/f3.gif'' = (Inr t3, s4) \<longrightarrow>
    batch_create_media_items R s4 [t1, t2, t3] aid = (Inr ids, s5) \<longrightarrow>
    (\<exists>db1. process_folder R walk ''/t/A'' db s =
        (True, db1, s5,
         [CreateAlbum ''A'' (Inr aid), UploadFile ''/t/A/f1.jpg'' (Inr t1),
          UploadFile ''/t/A/f2.PNG'' (Inr t2), UploadFile ''/t/A/f3.gif'' (Inr t3),
          CommitBatch [t1, t2, t3] aid (Inr ids)]) \<and>
       is_file_uploaded db1 ''/t/A/f1.jpg'' \<and> is_file_uploaded db1 ''/t/A/f2.PNG'' \<and>
       is_file_uploaded db1 ''/t/A/f3.gif'' \<and>
       get_folder_resumption_data db1 ''/t/A'' = Some (aid, ''processed'')))"
proof (intro conjI impI)
  show "f \<in> set (gather_files walked) \<longleftrightarrow>
      (\<exists>root names name. (root, names) \<in> set walked \<and> name \<in> set names \<and>
         lower (splitext_ext name) \<in> {''.jpg'', ''.jpeg'', ''.png'', ''.gif'', ''.bmp'', ''.webp''} \<and>
         f = path_join root name)"
    unfolding gather_files_set image_extensions_def ..
next
  assume g: "get_folder_resumption_data db ''/t/A'' = None"
    and w: "walk ''/t/A'' = [(''/t/A'', [''f1.jpg'', ''f2.PNG'', ''f3.gif''])]"
    and n: "\<not> is_file_uploaded db ''/t/A/f1.jpg''" "\<not> is_file_uploaded db ''/t/A/f2.PNG''"
      "\<not> is_file_uploaded db ''/t/A/f3.gif''"
    and ca: "create_album R s ''A'' = (Inr aid, s1)"
    and u: "upload_bytes R s1 ''/t/A/f1.jpg'' = (Inr t1, s2)"
      "upload_bytes R s2 ''/t/A/f2.PNG'' = (Inr t2, s3)"
      "upload_bytes R s3 ''/t/A/f3.gif'' = (Inr t3, s4)"
    and bc: "batch_create_media_items R s4 [t1, t2, t3] aid = (Inr ids, s5)"
  let ?fs = "[''/t/A/f1.jpg'', ''/t/A/f2.PNG'', ''/t/A/f3.gif'']"
  let ?dba = "set_folder_album db ''/t/A'' aid"
  let ?db1 = "set_folder_status (mark_all ?dba ?fs ''/t/A'') ''/t/A'' ''processed''"
  have a: "\<not> folder_processed db ''/t/A''" "is_album_folder ''/t/A''"
    "\<not> truthy (existing_album db ''/t/A'')"
    using g by (simp_all add: folder_processed_def existing_album_def is_album_folder_def
        as_posix_simple basename_simple album_simple)
  have gf: "gather_files (walk ''/t/A'') = ?fs"
    by (simp add: w gather_files_def image_file_simple path_join_def startswith_single)
  have b: "batches BATCH_SIZE ?fs = [?fs]"
    by (simp add: batches_def BATCH_SIZE_def)
  have ub: "upload_batch R ?fs [] [] s1 =
      (Some ([t1, t2, t3], ?fs), s4,
       [UploadFile ''/t/A/f1.jpg'' (Inr t1), UploadFile ''/t/A/f2.PNG'' (Inr t2),
        UploadFile ''/t/A/f3.gif'' (Inr t3)])"
    by (simp add: u)
  have ubs: "upload_batches R ''/t/A'' aid [?fs] ?dba s1 =
      (True, mark_all ?dba ?fs ''/t/A'', s5,
       [UploadFile ''/t/A/f1.jpg'' (Inr t1), UploadFile ''/t/A/f2.PNG'' (Inr t2),
        UploadFile ''/t/A/f3.gif'' (Inr t3), CommitBatch [t1, t2, t3] aid (Inr ids)])"
    using ub bc by (simp del: upload_batch.simps mark_all.simps)
  have tf: "transfer_files R walk ''/t/A'' aid ?dba s1 =
      (True, ?db1, s5,
       [UploadFile ''/t/A/f1.jpg'' (Inr t1), UploadFile ''/t/A/f2.PNG'' (Inr t2),
        UploadFile ''/t/A/f3.gif'' (Inr t3), CommitBatch [t1, t2, t3] aid (Inr ids)])"
    using n by (simp add: transfer_files_def gf b ubs del: upload_batches.simps mark_all.simps)
  have run: "process_folder R walk ''/t/A'' db s =
      (True, ?db1, s5,
       [CreateAlbum ''A'' (Inr aid), UploadFile ''/t/A/f1.jpg'' (Inr t1),
        UploadFile ''/t/A/f2.PNG'' (Inr t2), UploadFile ''/t/A/f3.gif'' (Inr t3),
        CommitBatch [t1, t2, t3] aid (Inr ids)])"
    by (simp add: process_folder_cases a as_posix_simple basename_simple ca tf
        del: mark_all.simps)
  have up: "is_file_uploaded ?db1 ''/t/A/f1.jpg''" "is_file_uploaded ?db1 ''/t/A/f2.PNG''"
    "is_file_uploaded ?db1 ''/t/A/f3.gif''"
    by (simp_all add: is_uploaded_mark_all del: mark_all.simps)
  have st: "get_folder_resumption_data ?db1 ''/t/A'' = Some (aid, ''processed'')"
    using g by (simp add: get_after_set_status get_after_set_album del: mark_all.simps)
  from run up st
  show "\<exists>db1. process_folder R walk ''/t/A'' db s =
        (True, db1, s5,
         [CreateAlbum ''A'' (Inr aid), UploadFile ''/t/A/f1.jpg'' (Inr t1),
          UploadFile ''/t/A/f2.PNG'' (Inr t2), UploadFile ''/t/A/f3.gif'' (Inr t3),
          CommitBatch [t1, t2, t3] aid (Inr ids)]) \<and>
       is_file_uploaded db1 ''/t/A/f1.jpg'' \<and> is_file_uploaded db1 ''/t/A/f2.PNG'' \<and>
       is_file_uploaded db1 ''/t/A/f3.gif'' \<and>
       get_folder_resumption_data db1 ''/t/A'' = Some (aid, ''processed'')"
    by (intro exI [of _ ?db1] conjI)
qed


theorem image_files_scenario_witness:
  "get_folder_resumption_data empty_db ''/t/A'' = None \<and>
   one_folder ''/t/A'' [''f1.jpg'', ''f2.PNG'', ''f3.gif''] ''/t/A'' =
     [(''/t/A'', [''f1.jpg'', ''f2.PNG'', ''f3.gif''])] \<and>
   \<not> is_file_uploaded empty_db ''/t/A/f1.jpg'' \<and>
   create_album ok_service 0 ''A'' = (Inr (Some ''album:A''), 1) \<and>
   upload_bytes ok_service 1 ''/t/A/f1.jpg'' = (Inr ''tok:/t/A/f1.jpg'', 2) \<and>
   batch_create_media_items ok_service 4
     [''tok:/t/A/f1.jpg'', ''tok:/t/A/f2.PNG'', ''tok:/t/A/f3.gif''] (Some ''album:A'') =
     (Inr [''tok:/t/A/f1.jpg'', ''tok:/t/A/f2.PNG'', ''tok:/t/A/f3.gif''], 5) \<and>
   (\<exists>db1. process_folder ok_service (one_folder ''/t/A'' [''f1.jpg'', ''f2.PNG'', ''f3.gif''])
        ''/t/A'' empty_db 0 =
        (True, db1, 5,
         [CreateAlbum ''A'' (Inr (Some ''album:A'')),
          UploadFile ''/t/A/f1.jpg'' (Inr ''tok:/t/A/f1.jpg''),
          UploadFile ''/t/A/f2.PNG'' (Inr ''tok:/t/A/f2.PNG''),
          UploadFile ''/t/A/f3.gif'' (Inr ''tok:/t/A/f3.gif''),
          CommitBatch [''tok:/t/A/f1.jpg'', ''tok:/t/A/f2.PNG'', ''tok:/t/A/f3.gif'']
            (Some ''album:A'')
            (Inr [''tok:/t/A/f1.jpg'', ''tok:/t/A/f2.PNG'', ''tok:/t/A/f3.gif''])]) \<and>
       is_file_uploaded db1 ''/t/A/f1.jpg'' \<and> is_file_uploaded db1 ''/t/A/f2.PNG'' \<and>
       is_file_uploaded db1 ''/t/A/f3.gif'' \<and>
       get_folder_resumption_data db1 ''/t/A'' = Some (Some ''album:A'', ''processed''))"
proof -
  let ?w = "one_folder ''/t/A'' [''f1.jpg'', ''f2.PNG'', ''f3.gif'']"
  have g: "get_folder_resumption_data empty_db ''/t/A'' = None"
    by (simp add: get_folder_resumption_data_def empty_db_def)
  have w: "?w ''/t/A'' = [(''/t/A'', [''f1.jpg'', ''f2.PNG'', ''f3.gif''])]"
    by (simp add: one_folder_def)
  have n: "\<not> is_file_uploaded empty_db ''/t/A/f1.jpg''" "\<not> is_file_uploaded empty_db ''/t/A/f2.PNG''"
    "\<not> is_file_uploaded empty_db ''/t/A/f3.gif''"
    by (simp_all add: is_file_uploaded_def empty_db_def)
  have ca: "create_album ok_service 0 ''A'' = (Inr (Some ''album:A''), 1)"
    by (simp add: ok_service_def stub_service_def)
  have u: "upload_bytes ok_service 1 ''/t/A/f1.jpg'' = (Inr ''tok:/t/A/f1.jpg'', 2)"
    "upload_bytes ok_service 2 ''/t/A/f2.PNG'' = (Inr ''tok:/t/A/f2.PNG'', 3)"
    "upload_bytes ok_service 3 ''/t/A/f3.gif'' = (Inr ''tok:/t/A/f3.gif'', 4)"
    by (simp_all add: ok_service_def stub_service_def)
  have bc: "batch_create_media_items ok_service 4
     [''tok:/t/A/f1.jpg'', ''tok:/t/A/f2.PNG'', ''tok:/t/A/f3.gif''] (Some ''album:A'') =
     (Inr [''tok:/t/A/f1.jpg'', ''tok:/t/A/f2.PNG'', ''tok:/t/A/f3.gif''], 5)"
    by (simp add: ok_service_def stub_service_def)
  note t = image_files_scenario [where db = empty_db and walk = ?w and R = ok_service and s = 0,
      THEN conjunct2, rule_format, OF g w n ca u bc]
  from g w n(1) ca u(1) bc t show ?thesis by (intro conjI)
qed

theorem video_file_not_selected:
  "snd (snd (snd (process_folder ok_service (one_folder ''/t/A'' [''f1.jpg'', ''f2.png'', ''f3.mp4''])
      ''/t/A'' empty_db 0))) =
     [CreateAlbum ''A'' (Inr (Some ''album:A'')),
      UploadFile ''/t/A/f1.jpg'' (Inr ''tok:/t/A/f1.jpg''),
      UploadFile ''/t/A/f2.png'' (Inr ''tok:/t/A/f2.png''),
      CommitBatch [''tok:/t/A/f1.jpg'', ''tok:/t/A/f2.png''] (Some ''album:A'')
        (Inr [''tok:/t/A/f1.jpg'', ''tok:/t/A/f2.png''])] \<and>
   \<not> is_file_uploaded
     (fst (snd (process_folder ok_service (one_folder ''/t/A'' [''f1.jpg'', ''f2.png'', ''f3.mp4''])
      ''/t/A'' empty_db 0))) ''/t/A/f3.mp4'' \<and>
   get_folder_resumption_data
     (fst (snd (process_folder ok_service (one_folder ''/t/A'' [''f1.jpg'', ''f2.png'', ''f3.mp4''])
      ''/t/A'' empty_db 0))) ''/t/A'' = Some (Some ''album:A'', ''processed'') \<and>
   gather_files [(''/t/A'', [''f1.jpg'', ''f2.png'', ''f3.mp4''])] = [''/t/A/f1.jpg'', ''/t/A/f2.png'']"
proof -
  have p: "as_posix ''/t/A/f2.png'' = ''/t/A/f2.png''"
    by (simp add: as_posix_def splitroot_def path_parts_def)
  have i: "lower (splitext_ext ''f2.png'') \<in> image_extensions"
    by (simp add: splitext_ext_def basename_def lower_def lower_char_def image_extensions_def)
  show ?thesis by (simp add: fast_defs p i)
qed

text \<open>
  C8. A session with a queue that is not empty, once authenticated, is the head-first
  session: \<^verbatim>\<open>start_transfer\<close> returns the queue, the store, the state of the outside
  world and the reports of \<open>run_session\<close>, with the progress reported after each run
  and the pause after a failed one; it never pops an empty queue. The folders that were
  run are a prefix of the queue in its order; every run but the last returned true; the
  queue left is the queue without the folders whose run returned true; when the last run
  returned false its folder is still the first of the queue, and when all runs returned
  true the queue is empty.
\<close>

theorem session_head_first:
  "selected_folders \<noteq> [] \<Longrightarrow>
   run_session R walk selected_folders db s = (q, db', s', runs) \<Longrightarrow>
     start_transfer (Inr R) walk selected_folders db s =
       Some (q, db', s', session_reports 0 (length selected_folders) runs @ [Done]) \<and>
     map fst runs = take (length runs) selected_folders \<and>
     q = drop (length (filter (\<lambda>r. fst (snd r)) runs)) selected_folders \<and>
     (\<forall>r \<in> set (butlast runs). fst (snd r)) \<and>
     (\<not> fst (snd (last runs)) \<longrightarrow> q \<noteq> [] \<and> hd q = fst (last runs)) \<and>
     ((\<forall>r \<in> set runs. fst (snd r)) \<longrightarrow> q = [])"
proof -
  assume ne: "selected_folders \<noteq> []"
    and rs: "run_session R walk selected_folders db s = (q, db', s', runs)"
  have rne: "runs \<noteq> []"
    using ne rs by (cases selected_folders) (auto split: prod.splits if_splits)
  have st: "start_transfer (Inr R) walk selected_folders db s =
       Some (q, db', s', session_reports 0 (length selected_folders) runs @ [Done])"
    using ne transfer_loop_refines [OF rs, of "length selected_folders" 0]
    by (simp add: start_transfer_def)
  from run_session_shape [OF rs] rne st show ?thesis by blast
qed


theorem session_head_first_witness:
  "[''/t/A'', ''/t/B'', ''/t/C''] \<noteq> [] \<and>
   fst (run_session
      (stub_service (\<lambda>t. if t = ''B'' then Some ''Quota exceeded'' else None) (\<lambda>f. None) (\<lambda>ts. None))
      (\<lambda>p. []) [''/t/A'', ''/t/B'', ''/t/C''] empty_db 0) = [''/t/B'', ''/t/C''] \<and>
   (\<exists>db1 s1.
     start_transfer
      (Inr (stub_service (\<lambda>t. if t = ''B'' then Some ''Quota exceeded'' else None) (\<lambda>f. None)
         (\<lambda>ts. None)))
      (\<lambda>p. []) [''/t/A'', ''/t/B'', ''/t/C''] empty_db 0 =
     Some ([''/t/B'', ''/t/C''], db1, s1,
       [Processed ''/t/A'' True [CreateAlbum ''A'' (Inr (Some ''album:A''))], Progress 1 3,
        Processed ''/t/B'' False [CreateAlbum ''B'' (Inl ''Quota exceeded'')], Progress 2 3,
        Paused ''/t/B'', Done]))"
proof -
  let ?R = "stub_service (\<lambda>t. if t = ''B'' then Some ''Quota exceeded'' else None) (\<lambda>f. None)
      (\<lambda>ts. None)"
  let ?q = "[''/t/A'', ''/t/B'', ''/t/C'']"
  let ?X = "run_session ?R (\<lambda>p. []) ?q empty_db 0"
  let ?runs = "[(''/t/A'', True, [CreateAlbum ''A'' (Inr (Some ''album:A''))]),
      (''/t/B'', False, [CreateAlbum ''B'' (Inl ''Quota exceeded'')])]"
  have p: "as_posix ''/t/B'' = ''/t/B''" "basename ''/t/B'' = ''B''"
    "\<not> startswith (lower ''B'') ''photos from''"
    by (simp_all add: as_posix_def splitroot_def path_parts_def basename_def startswith_def
        lower_def lower_char_def)
  have x: "fst ?X = [''/t/B'', ''/t/C''] \<and> snd (snd (snd ?X)) = ?runs"
    by (simp add: fast_defs p)
  then have rs: "?X = ([''/t/B'', ''/t/C''], fst (snd ?X), fst (snd (snd ?X)), ?runs)"
    by (simp add: prod_eq_iff)
  have ne: "?q \<noteq> []" by simp
  note t = session_head_first [OF ne rs, THEN conjunct1]
  have "start_transfer (Inr ?R) (\<lambda>p. []) ?q empty_db 0 =
     Some ([''/t/B'', ''/t/C''], fst (snd ?X), fst (snd (snd ?X)),
       [Processed ''/t/A'' True [CreateAlbum ''A'' (Inr (Some ''album:A''))], Progress 1 3,
        Processed ''/t/B'' False [CreateAlbum ''B'' (Inl ''Quota exceeded'')], Progress 2 3,
        Paused ''/t/B'', Done])"
    using t by (simp add: numeral_2_eq_2 numeral_3_eq_3)
  then have "\<exists>db1 s1. start_transfer (Inr ?R) (\<lambda>p. []) ?q empty_db 0 =
     Some ([''/t/B'', ''/t/C''], db1, s1,
       [Processed ''/t/A'' True [CreateAlbum ''A'' (Inr (Some ''album:A''))], Progress 1 3,
        Processed ''/t/B'' False [CreateAlbum ''B'' (Inl ''Quota exceeded'')], Progress 2 3,
        Paused ''/t/B'', Done])" by (intro exI)
  with ne x show ?thesis by (intro conjI) simp_all
qed

end
